theory Spec2Isabelle
  imports Complex_Main "HOL-Library.Word"
begin

unbundle bit_operations_syntax

section \<open>AlxLib: integer part of \<^verbatim>\<open>Alxlib.h\<close>\<close>

type_synonym uint32 = "32 word"
type_synonym uint64 = "64 word"

subsection \<open>The Lehmer mixer\<close>

text \<open>
  \<^verbatim>\<open>uint64_t LehmerInt64(const uint64_t seed)\<close>, statement by statement. The literal
  \<^verbatim>\<open>0xe120fc15\<close> is an \<^verbatim>\<open>unsigned int\<close> and \<^verbatim>\<open>0x4a39b70d\<close>, \<^verbatim>\<open>0x12fad5c9\<close> are
  non-negative \<^verbatim>\<open>int\<close>s, so all three convert to \<^verbatim>\<open>uint64_t\<close> without sign extension.
\<close>

definition LehmerInt64 :: "uint64 \<Rightarrow> uint64" where
  "LehmerInt64 seed =
     (let sLehmer = seed + 0xe120fc15;
          tmp = sLehmer * 0x4a39b70d;
          m1 = drop_bit 32 tmp XOR tmp;
          tmp' = m1 * 0x12fad5c9;
          m2 = drop_bit 32 tmp' XOR tmp'
      in m2)"

text \<open>
  The reference algorithm in the words of the specification, on natural numbers with every
  wrap-around written out.
\<close>

definition mix_round :: "nat \<Rightarrow> nat \<Rightarrow> nat" where
  "mix_round x k = (let p = (x * k) mod 2 ^ 64 in (p div 2 ^ 32) XOR p)"

definition mix_reference :: "nat \<Rightarrow> nat" where
  "mix_reference seed =
     mix_round (mix_round ((seed + 0xe120fc15) mod 2 ^ 64) 0x4a39b70d) 0x12fad5c9"

subsection \<open>Bit utilities\<close>

definition maskBits :: "uint32 \<Rightarrow> uint32 \<Rightarrow> uint32" where
  "maskBits a m = a AND m"

text \<open>The three assignments of \<^verbatim>\<open>reverseBits\<close>, one definition per stage.\<close>

definition swap_nibbles :: "uint32 \<Rightarrow> uint32" where
  "swap_nibbles a = drop_bit 4 (a AND 0xF0) OR push_bit 4 (a AND 0x0F)"

definition swap_pairs :: "uint32 \<Rightarrow> uint32" where
  "swap_pairs a = drop_bit 2 (a AND 0xCC) OR push_bit 2 (a AND 0x33)"

definition swap_bits :: "uint32 \<Rightarrow> uint32" where
  "swap_bits a = drop_bit 1 (a AND 0xAA) OR push_bit 1 (a AND 0x55)"

definition reverseBits :: "uint32 \<Rightarrow> uint32" where
  "reverseBits a = swap_bits (swap_pairs (swap_nibbles a))"

section \<open>AlxLib: floating-point part\<close>

subsection \<open>A model of \<^verbatim>\<open>float\<close> (IEEE 754 binary32, round to nearest, ties to even)\<close>

text \<open>
  A \<^verbatim>\<open>float\<close> is a NaN, an infinity, or a finite value, kept as the rational number it
  denotes. The two zeros are one value \<open>Fin 0\<close>: they compare equal in C++, and the code
  modelled here divides only behind a guard that excludes a zero divisor, which is the one
  place where their sign could be observed. Every operation rounds its exact result once,
  to binary32 (\<^verbatim>\<open>FLT_EVAL_METHOD\<close> 0, no contraction of a product and a sum into one
  fused operation).
\<close>

datatype float = NaN | PInf | NInf | Fin rat

definition pow2 :: "int \<Rightarrow> rat" where
  "pow2 e = (if 0 \<le> e then 2 ^ nat e else 1 / 2 ^ nat (- e))"

text \<open>
  The exponent of the binade of a magnitude \<open>a\<close>: the largest \<open>e\<close> in \<open>-126 .. 127\<close> with
  \<open>2^e \<le> a\<close>, and \<open>-126\<close> below the normal range (subnormal numbers share the spacing of the
  smallest normal binade).
\<close>

function expo_from :: "int \<Rightarrow> rat \<Rightarrow> int" where
  "expo_from e a = (if e < 127 \<and> pow2 (e + 1) \<le> a then expo_from (e + 1) a else e)"
  by pat_completeness auto
termination
  by (relation "measure (\<lambda>(e, a). nat (127 - e))") auto

definition expo :: "rat \<Rightarrow> int" where
  "expo a = expo_from (- 126) a"

text \<open>Rounding a rational to the nearest integer, a tie going to the even neighbour.\<close>

definition rne :: "rat \<Rightarrow> int" where
  "rne q =
     (let f = \<lfloor>q\<rfloor>; r = q - of_int f
      in if r < 1 / 2 then f else if 1 / 2 < r then f + 1 else if even f then f else f + 1)"

text \<open>
  Rounding an exact result to binary32: the spacing of the binade is \<open>2^(e - 23)\<close>, and the
  result is the nearest multiple of the spacing; a magnitude of at least \<open>2^128 - 2^103\<close>
  (the largest finite value plus half a spacing) overflows to an infinity.
\<close>

definition nearest32 :: "rat \<Rightarrow> rat" where
  "nearest32 x = (let u = pow2 (expo \<bar>x\<bar> - 23) in of_int (rne (x / u)) * u)"

definition round32 :: "rat \<Rightarrow> float" where
  "round32 x =
     (if 2 ^ 128 - 2 ^ 103 \<le> \<bar>x\<bar> then (if 0 < x then PInf else NInf)
      else Fin (nearest32 x))"

fun fneg :: "float \<Rightarrow> float" where
  "fneg NaN = NaN"
| "fneg PInf = NInf"
| "fneg NInf = PInf"
| "fneg (Fin a) = Fin (- a)"

fun fabs :: "float \<Rightarrow> float" where
  "fabs NaN = NaN"
| "fabs PInf = PInf"
| "fabs NInf = PInf"
| "fabs (Fin a) = Fin \<bar>a\<bar>"

fun fadd :: "float \<Rightarrow> float \<Rightarrow> float" where
  "fadd NaN y = NaN"
| "fadd x NaN = NaN"
| "fadd PInf NInf = NaN"
| "fadd NInf PInf = NaN"
| "fadd PInf y = PInf"
| "fadd NInf y = NInf"
| "fadd x PInf = PInf"
| "fadd x NInf = NInf"
| "fadd (Fin a) (Fin b) = round32 (a + b)"

definition fsub :: "float \<Rightarrow> float \<Rightarrow> float" where
  "fsub x y = fadd x (fneg y)"

text \<open>The sign of an infinite product or quotient.\<close>

definition signed_inf :: "bool \<Rightarrow> float" where
  "signed_inf negative = (if negative then NInf else PInf)"

fun is_negative :: "float \<Rightarrow> bool" where
  "is_negative NInf = True"
| "is_negative (Fin a) = (a < 0)"
| "is_negative x = False"

fun fmul :: "float \<Rightarrow> float \<Rightarrow> float" where
  "fmul NaN y = NaN"
| "fmul x NaN = NaN"
| "fmul (Fin a) (Fin b) = round32 (a * b)"
| "fmul x y =
     (if x = Fin 0 \<or> y = Fin 0 then NaN else signed_inf (is_negative x \<noteq> is_negative y))"

text \<open>
  Division. A finite non-zero value over zero is an infinity whose sign is taken as if the
  divisor were \<open>+0\<close>; \<^verbatim>\<open>GetRangeAlpha\<close> and \<^verbatim>\<open>LehmerFloat\<close> never get there.
\<close>

fun fdiv :: "float \<Rightarrow> float \<Rightarrow> float" where
  "fdiv NaN y = NaN"
| "fdiv x NaN = NaN"
| "fdiv (Fin a) (Fin b) =
     (if b = 0 then (if a = 0 then NaN else signed_inf (a < 0)) else round32 (a / b))"
| "fdiv (Fin a) y = Fin 0"
| "fdiv x (Fin b) = signed_inf (is_negative x \<noteq> is_negative (Fin b))"
| "fdiv x y = NaN"

text \<open>The comparisons: every comparison with a NaN is false.\<close>

fun flt :: "float \<Rightarrow> float \<Rightarrow> bool" where
  "flt NaN y = False"
| "flt x NaN = False"
| "flt PInf y = False"
| "flt x NInf = False"
| "flt NInf y = True"
| "flt x PInf = True"
| "flt (Fin a) (Fin b) = (a < b)"

fun fle :: "float \<Rightarrow> float \<Rightarrow> bool" where
  "fle NaN y = False"
| "fle x NaN = False"
| "fle NInf y = True"
| "fle x PInf = True"
| "fle PInf y = False"
| "fle x NInf = False"
| "fle (Fin a) (Fin b) = (a \<le> b)"

definition fge :: "float \<Rightarrow> float \<Rightarrow> bool" where
  "fge x y = fle y x"

text \<open>Conversions between the unsigned integer types and \<^verbatim>\<open>float\<close>.\<close>

definition float_of_uint32 :: "uint32 \<Rightarrow> float" where
  "float_of_uint32 w = round32 (of_int (uint w))"

definition float_of_uint64 :: "uint64 \<Rightarrow> float" where
  "float_of_uint64 w = round32 (of_int (uint w))"

text \<open>
  The cast \<^verbatim>\<open>(uint32_t)x\<close> truncates towards zero; its behaviour is undefined (\<open>None\<close>)
  when the truncated value is not a \<^verbatim>\<open>uint32_t\<close>, and for a NaN or an infinity.
\<close>

definition trunc :: "rat \<Rightarrow> int" where
  "trunc q = (if 0 \<le> q then \<lfloor>q\<rfloor> else \<lceil>q\<rceil>)"

fun uint32_of_float :: "float \<Rightarrow> uint32 option" where
  "uint32_of_float (Fin q) =
     (if 0 \<le> trunc q \<and> trunc q < 2 ^ 32 then Some (word_of_int (trunc q)) else None)"
| "uint32_of_float x = None"

subsection \<open>Numeric core (namespace \<^verbatim>\<open>alx::tpl\<close>)\<close>

text \<open>
  \<^verbatim>\<open>template<class T, class U> T Lerp(T A, T B, U alpha) { return (T)(A + alpha * (B - A)); }\<close>
  at \<^verbatim>\<open>T = U = float\<close>, the instance behind \<^verbatim>\<open>fLerp\<close> and the easing functions, and at
  \<^verbatim>\<open>T = uint32_t\<close>, \<^verbatim>\<open>U = float\<close>: there \<^verbatim>\<open>B - A\<close> is a \<^verbatim>\<open>uint32_t\<close> subtraction, its result
  and \<^verbatim>\<open>A\<close> are converted to \<^verbatim>\<open>float\<close> by the usual arithmetic conversions, and the sum
  is cast back.
\<close>

definition Lerp :: "float \<Rightarrow> float \<Rightarrow> float \<Rightarrow> float" where
  "Lerp A B alpha = fadd A (fmul alpha (fsub B A))"

definition Lerp_uint32 :: "uint32 \<Rightarrow> uint32 \<Rightarrow> float \<Rightarrow> uint32 option" where
  "Lerp_uint32 A B alpha =
     uint32_of_float (fadd (float_of_uint32 A) (fmul alpha (float_of_uint32 (B - A))))"

text \<open>
  The easing functions take the interpolation \<^verbatim>\<open>Lerp<T>\<close> of their element type and the
  library function \<^verbatim>\<open>pow\<close> of \<^verbatim>\<open><math.h>\<close> as parameters \<open>lerpT\<close> and \<open>pw\<close>.
\<close>

definition InterpEaseIn ::
  "('t \<Rightarrow> 't \<Rightarrow> float \<Rightarrow> 't) \<Rightarrow> (float \<Rightarrow> float \<Rightarrow> float) \<Rightarrow> 't \<Rightarrow> 't \<Rightarrow> float \<Rightarrow> float \<Rightarrow> 't" where
  "InterpEaseIn lerpT pw A B Alpha Exp = (let ModifiedAlpha = pw Alpha Exp in lerpT A B ModifiedAlpha)"

definition InterpEaseOut ::
  "('t \<Rightarrow> 't \<Rightarrow> float \<Rightarrow> 't) \<Rightarrow> (float \<Rightarrow> float \<Rightarrow> float) \<Rightarrow> 't \<Rightarrow> 't \<Rightarrow> float \<Rightarrow> float \<Rightarrow> 't" where
  "InterpEaseOut lerpT pw A B Alpha Exp =
     (let ModifiedAlpha = fsub (Fin 1) (pw (fsub (Fin 1) Alpha) Exp) in lerpT A B ModifiedAlpha)"

text \<open>
  The two operands of the conditional expression in \<^verbatim>\<open>InterpEaseInOut\<close>; both calls
  deduce \<^verbatim>\<open>T = float\<close> from the arguments \<^verbatim>\<open>0.f, 1.f\<close>.
\<close>

definition ease_in_half :: "(float \<Rightarrow> float \<Rightarrow> float) \<Rightarrow> float \<Rightarrow> float \<Rightarrow> float" where
  "ease_in_half pw alpha Exp =
     fmul (InterpEaseIn Lerp pw (Fin 0) (Fin 1) (fmul alpha (Fin 2)) Exp) (Fin (1 / 2))"

definition ease_out_half :: "(float \<Rightarrow> float \<Rightarrow> float) \<Rightarrow> float \<Rightarrow> float \<Rightarrow> float" where
  "ease_out_half pw alpha Exp =
     fadd (fmul (InterpEaseOut Lerp pw (Fin 0) (Fin 1) (fsub (fmul alpha (Fin 2)) (Fin 1)) Exp)
                (Fin (1 / 2)))
          (Fin (1 / 2))"

definition InterpEaseInOut ::
  "('t \<Rightarrow> 't \<Rightarrow> float \<Rightarrow> 't) \<Rightarrow> (float \<Rightarrow> float \<Rightarrow> float) \<Rightarrow> 't \<Rightarrow> 't \<Rightarrow> float \<Rightarrow> float \<Rightarrow> 't" where
  "InterpEaseInOut lerpT pw A B alpha Exp =
     lerpT A B (if flt alpha (Fin (1 / 2)) then ease_in_half pw alpha Exp
                else ease_out_half pw alpha Exp)"

text \<open>
  \<^verbatim>\<open>Clamp<T>\<close> uses only \<^verbatim>\<open>operator<\<close> of \<^verbatim>\<open>T\<close>, which is the parameter \<open>lt\<close>: \<open>(<)\<close> for an
  integral type, \<open>flt\<close> for \<^verbatim>\<open>float\<close>.
\<close>

definition Clamp :: "('t \<Rightarrow> 't \<Rightarrow> bool) \<Rightarrow> 't \<Rightarrow> 't \<Rightarrow> 't \<Rightarrow> 't" where
  "Clamp lt v mn mx = (if lt v mn then mn else if lt v mx then v else mx)"

subsection \<open>The \<^verbatim>\<open>float\<close> wrappers and the range mapper (namespace \<^verbatim>\<open>alx\<close>)\<close>

definition fLerp :: "float \<Rightarrow> float \<Rightarrow> float \<Rightarrow> float" where
  "fLerp A B alpha = Lerp A B alpha"

definition fClamp :: "float \<Rightarrow> float \<Rightarrow> float \<Rightarrow> float" where
  "fClamp v mn mx = Clamp flt v mn mx"

text \<open>\<^verbatim>\<open>#define SMALL_NUMBER (1.e-8f)\<close>: the binary32 value nearest to \<open>10^-8\<close>.\<close>

definition SMALL_NUMBER :: float where
  "SMALL_NUMBER = round32 (1 / 10 ^ 8)"

text \<open>
  \<^verbatim>\<open>abs(value)\<close> is the \<^verbatim>\<open>float\<close> overload that the C++ header \<^verbatim>\<open><math.h>\<close> declares.
\<close>

definition NearTolerance :: "float \<Rightarrow> float \<Rightarrow> bool" where
  "NearTolerance v errorTolerance = fle (fabs v) errorTolerance"

definition GetRangeAlpha :: "float \<Rightarrow> float \<Rightarrow> float \<Rightarrow> float" where
  "GetRangeAlpha minValue maxValue v =
     (let d = fsub maxValue minValue
      in if NearTolerance d SMALL_NUMBER then (if fge v maxValue then Fin 1 else Fin 0)
         else fdiv (fsub v minValue) d)"

definition GetMappedValueUnclamped :: "float \<Rightarrow> float \<Rightarrow> float \<Rightarrow> float \<Rightarrow> float \<Rightarrow> float" where
  "GetMappedValueUnclamped inMin inMax outMin outMax v =
     fLerp outMin outMax (GetRangeAlpha inMin inMax v)"

definition GetMappedValueClamped :: "float \<Rightarrow> float \<Rightarrow> float \<Rightarrow> float \<Rightarrow> float \<Rightarrow> float" where
  "GetMappedValueClamped inMin inMax outMin outMax v =
     (let clampedAlpha = fClamp (GetRangeAlpha inMin inMax v) (Fin 0) (Fin 1)
      in fLerp outMin outMax clampedAlpha)"

subsection \<open>The seeded generators and their stateful overloads\<close>

definition LehmerFloat :: "uint64 \<Rightarrow> float" where
  "LehmerFloat seed = fdiv (float_of_uint64 (LehmerInt64 seed)) (float_of_uint64 (- 1))"

definition randBool :: "uint64 \<Rightarrow> bool" where
  "randBool seed = (LehmerInt64 seed mod 2 \<noteq> 0)"

text \<open>
  Each overload without a parameter has a function-local \<^verbatim>\<open>static uint64_t seed\<close> of its
  own, zero-initialised: three counters, which are the state of the library.
\<close>

record counters =
  seed_int64 :: uint64
  seed_float :: uint64
  seed_bool :: uint64

definition initial :: counters where
  "initial = \<lparr>seed_int64 = 0, seed_float = 0, seed_bool = 0\<rparr>"

definition LehmerInt64_next :: "counters \<Rightarrow> uint64 \<times> counters" where
  "LehmerInt64_next st =
     (let st' = st\<lparr>seed_int64 := seed_int64 st + 1\<rparr> in (LehmerInt64 (seed_int64 st'), st'))"

definition LehmerFloat_next :: "counters \<Rightarrow> float \<times> counters" where
  "LehmerFloat_next st =
     (let st' = st\<lparr>seed_float := seed_float st + 1\<rparr>
      in (fdiv (float_of_uint64 (LehmerInt64 (seed_float st'))) (float_of_uint64 (- 1)), st'))"

definition randBool_next :: "counters \<Rightarrow> bool \<times> counters" where
  "randBool_next st =
     (let st' = st\<lparr>seed_bool := seed_bool st + 1\<rparr>
      in (LehmerInt64 (seed_bool st') mod 2 \<noteq> 0, st'))"

subsection \<open>Linear search for the n-th occurrence\<close>

text \<open>
  \<^verbatim>\<open>template <class T> int findInVector(T a, std::vector<T> vect, int nth)\<close>. The loop
  variables \<^verbatim>\<open>i\<close> and \<^verbatim>\<open>iteration\<close> are \<^verbatim>\<open>int\<close>s: incrementing one at \<^verbatim>\<open>INT_MAX\<close> is a
  signed overflow, undefined behaviour, which the model returns as \<open>None\<close>. The loop
  condition \<^verbatim>\<open>i < vect.size()\<close> compares as \<^verbatim>\<open>size_t\<close>; \<^verbatim>\<open>i\<close> is never negative there.
\<close>

definition INT_MAX :: int where
  "INT_MAX = 2 ^ 31 - 1"

function findInVector_loop :: "'a \<Rightarrow> 'a list \<Rightarrow> int \<Rightarrow> int \<Rightarrow> int \<Rightarrow> int option" where
  "findInVector_loop a vect n iteration i =
     (if 0 \<le> i \<and> nat i < length vect then
        (if a = vect ! nat i then
           (if iteration = n then Some i
            else if iteration = INT_MAX \<or> i = INT_MAX then None
            else findInVector_loop a vect n (iteration + 1) (i + 1))
         else if i = INT_MAX then None
         else findInVector_loop a vect n iteration (i + 1))
      else Some (- 1))"
  by pat_completeness auto
termination
  by (relation "measure (\<lambda>(a, vect, n, iteration, i). length vect - nat i)") auto

definition findInVector_nth :: "'a \<Rightarrow> 'a list \<Rightarrow> int \<Rightarrow> int option" where
  "findInVector_nth a vect n = findInVector_loop a vect n 1 0"

text \<open>
  What the specification calls the position of the \<open>n\<close>-th occurrence (counted from 1) of
  \<open>a\<close>: the element at \<open>j\<close> is \<open>a\<close>, and \<open>n - 1\<close> elements before it are.
\<close>

definition nth_occurrence_at :: "'a \<Rightarrow> 'a list \<Rightarrow> int \<Rightarrow> nat \<Rightarrow> bool" where
  "nth_occurrence_at a vect n j \<longleftrightarrow>
     j < length vect \<and> vect ! j = a \<and> int (count_list (take j vect) a) = n - 1"

text \<open>
  The two outcomes the specification allows for a search: the position of the \<open>n\<close>-th
  occurrence, or the sentinel \<open>-1\<close> when \<open>a\<close> occurs fewer than \<open>n\<close> times.
\<close>

definition found_or_absent :: "'a \<Rightarrow> 'a list \<Rightarrow> int \<Rightarrow> int option \<Rightarrow> bool" where
  "found_or_absent a vect n r \<longleftrightarrow>
     (\<exists>j. r = Some (int j) \<and> nth_occurrence_at a vect n j)
     \<or> (r = Some (- 1) \<and> int (count_list vect a) < n)"

subsection \<open>Runs of the stateful overloads\<close>

text \<open>
  The three entry points without a parameter, the counter each of them owns, and the effect
  of a call on the state. \<open>queried e cs\<close> is the seed that a call of \<open>e\<close> hands to the mixer
  when the calls \<open>cs\<close> have been made since the start of the process.
\<close>

datatype entry = EntryInt64 | EntryFloat | EntryBool

fun seed_of :: "entry \<Rightarrow> counters \<Rightarrow> uint64" where
  "seed_of EntryInt64 st = seed_int64 st"
| "seed_of EntryFloat st = seed_float st"
| "seed_of EntryBool st = seed_bool st"

fun call :: "entry \<Rightarrow> counters \<Rightarrow> counters" where
  "call EntryInt64 st = snd (LehmerInt64_next st)"
| "call EntryFloat st = snd (LehmerFloat_next st)"
| "call EntryBool st = snd (randBool_next st)"

fun run :: "entry list \<Rightarrow> counters \<Rightarrow> counters" where
  "run [] st = st"
| "run (e # cs) st = run cs (call e st)"

definition queried :: "entry \<Rightarrow> entry list \<Rightarrow> uint64" where
  "queried e cs = seed_of e (call e (run cs initial))"

subsection \<open>Statements of the specification, in its words\<close>

text \<open>
  \<^verbatim>\<open>Clamp\<close> as the specification words it: the value if \<open>min \<le> value < max\<close>, else \<open>min\<close>
  if \<open>value < min\<close>, else \<open>max\<close>.
\<close>

definition Clamp_spec :: "('t \<Rightarrow> 't \<Rightarrow> bool) \<Rightarrow> ('t \<Rightarrow> 't \<Rightarrow> bool) \<Rightarrow> 't \<Rightarrow> 't \<Rightarrow> 't \<Rightarrow> 't" where
  "Clamp_spec le lt v mn mx = (if le mn v \<and> lt v mx then v else if lt v mn then mn else mx)"

text \<open>A \<^verbatim>\<open>float\<close> lying in a closed interval of \<^verbatim>\<open>float\<close>s.\<close>

definition in_range :: "float \<Rightarrow> float \<Rightarrow> float \<Rightarrow> bool" where
  "in_range lo hi x \<longleftrightarrow> fle lo x \<and> fle x hi"

text \<open>A rational number that is the value of a finite \<^verbatim>\<open>float\<close>: rounding leaves it alone.\<close>

definition representable :: "rat \<Rightarrow> bool" where
  "representable q \<longleftrightarrow> round32 q = Fin q"

text \<open>
  \<^verbatim>\<open>Lerp\<close> at \<^verbatim>\<open>T = uint32_t\<close> as the specification describes it, with the difference
  \<^verbatim>\<open>B - A\<close> taken after widening the operands to the floating type, so that it cannot wrap.
\<close>

definition Lerp_widened_uint32 :: "uint32 \<Rightarrow> uint32 \<Rightarrow> float \<Rightarrow> uint32 option" where
  "Lerp_widened_uint32 A B alpha =
     uint32_of_float
       (fadd (float_of_uint32 A) (fmul alpha (fsub (float_of_uint32 B) (float_of_uint32 A))))"

text \<open>
  An instance for the parameter \<open>pw\<close>: the values of \<^verbatim>\<open>pow\<close> that Annex F of the C standard
  fixes whatever the other argument is, a NaN included (\<^verbatim>\<open>pow(1, y) = 1\<close>, \<^verbatim>\<open>pow(x, 0) = 1\<close>),
  and \<^verbatim>\<open>pow(x, 1) = x\<close>; the remaining results depend on the library's rounding and are
  not tabulated (\<open>NaN\<close> stands in for them).
\<close>

definition pow_fixed_cases :: "float \<Rightarrow> float \<Rightarrow> float" where
  "pow_fixed_cases x y =
     (if x = Fin 1 \<or> y = Fin 0 then Fin 1 else if y = Fin 1 then x else NaN)"

section \<open>Properties of the integer part\<close>

subsection \<open>The mixer against its reference algorithm\<close>

lemma unat_mix_round:
  "unat (drop_bit 32 (w * k) XOR (w * k) :: uint64) = mix_round (unat w) (unat k)"
  by (simp add: mix_round_def Let_def unsigned_xor_eq unat_drop_bit_eq unat_word_ariths
      drop_bit_eq_div)

text \<open>
  Claim C2. For every 64-bit seed, \<^verbatim>\<open>LehmerInt64(seed)\<close> is the value of the reference
  algorithm of the specification: add \<^verbatim>\<open>0xe120fc15\<close>, multiply by \<^verbatim>\<open>0x4a39b70d\<close> modulo
  \<open>2^64\<close>, XOR the product shifted right by 32 bits with the product, multiply by
  \<^verbatim>\<open>0x12fad5c9\<close> modulo \<open>2^64\<close>, and XOR again in the same way. The result is a function
  of the seed alone, so equal seeds give equal outputs.
\<close>

theorem LehmerInt64_reference:
  "unat (LehmerInt64 seed) = mix_reference (unat seed)"
proof -
  define s :: uint64 where "s = seed + 0xe120fc15"
  define m1 :: uint64 where "m1 = drop_bit 32 (s * 0x4a39b70d) XOR s * 0x4a39b70d"
  have s: "unat s = (unat seed + 0xe120fc15) mod 2 ^ 64"
    by (simp add: s_def unat_word_ariths)
  have m1: "unat m1 = mix_round (unat s) 0x4a39b70d"
    unfolding m1_def by (subst unat_mix_round) simp
  have "LehmerInt64 seed = drop_bit 32 (m1 * 0x12fad5c9) XOR m1 * 0x12fad5c9"
    by (simp add: LehmerInt64_def Let_def m1_def s_def)
  then have "unat (LehmerInt64 seed) = mix_round (unat m1) 0x12fad5c9"
    by (simp only: unat_mix_round) simp
  then show ?thesis
    by (simp only: mix_reference_def m1 s)
qed

subsection \<open>Bit reversal\<close>

lemma below8:
  "m < (8::nat) \<Longrightarrow> m = 0 \<or> m = 1 \<or> m = 2 \<or> m = 3 \<or> m = 4 \<or> m = 5 \<or> m = 6 \<or> m = 7"
  by presburger

lemma bit_byte: "w = take_bit 8 w \<Longrightarrow> bit (w::uint32) m \<Longrightarrow> m < 8"
  by (metis bit_take_bit_iff)

lemma byte_mask_cases:
  fixes w :: uint32
  assumes "w = take_bit 8 w"
    and "\<And>k. k \<in> {0, 1, 2, 3, 4, 5, 6, 7} \<Longrightarrow> bit w k = P k"
    and "\<And>k. 8 \<le> k \<Longrightarrow> \<not> P k"
  shows "bit w m = P m"
proof (cases "m < 8")
  case True
  from below8[OF this] assms(2) show ?thesis by auto
next
  case False
  with bit_byte[OF assms(1)] have "\<not> bit w m" by blast
  with False assms(3) show ?thesis by simp
qed

lemma bit_F0: "bit (0xF0::uint32) m \<longleftrightarrow> m \<in> {4, 5, 6, 7}"
  by (rule byte_mask_cases) auto

lemma bit_0F: "bit (0x0F::uint32) m \<longleftrightarrow> m \<in> {0, 1, 2, 3}"
  by (rule byte_mask_cases) auto

lemma bit_CC: "bit (0xCC::uint32) m \<longleftrightarrow> m \<in> {2, 3, 6, 7}"
  by (rule byte_mask_cases) auto

lemma bit_33: "bit (0x33::uint32) m \<longleftrightarrow> m \<in> {0, 1, 4, 5}"
  by (rule byte_mask_cases) auto

lemma bit_AA: "bit (0xAA::uint32) m \<longleftrightarrow> m \<in> {1, 3, 5, 7}"
  by (rule byte_mask_cases) auto

lemma bit_55: "bit (0x55::uint32) m \<longleftrightarrow> m \<in> {0, 2, 4, 6}"
  by (rule byte_mask_cases) auto

text \<open>What each stage does to bit \<open>m\<close> of its result.\<close>

lemma bit_swap_nibbles:
  "bit (swap_nibbles x) m \<longleftrightarrow> (m < 4 \<and> bit x (4 + m)) \<or> (4 \<le> m \<and> m < 8 \<and> bit x (m - 4))"
  unfolding swap_nibbles_def
  apply (simp only: bit_or_iff bit_and_iff bit_drop_bit_eq bit_push_bit_iff bit_F0 bit_0F o_def)
  apply (auto simp: possible_bit_word)
  done

lemma bit_swap_pairs:
  "bit (swap_pairs x) m \<longleftrightarrow>
     (m \<in> {0, 1, 4, 5} \<and> bit x (2 + m)) \<or> (m \<in> {2, 3, 6, 7} \<and> bit x (m - 2))"
  unfolding swap_pairs_def
  apply (simp only: bit_or_iff bit_and_iff bit_drop_bit_eq bit_push_bit_iff bit_CC bit_33 o_def)
  apply (auto simp: possible_bit_word)
  done

lemma bit_swap_bits:
  "bit (swap_bits x) m \<longleftrightarrow>
     (m \<in> {0, 2, 4, 6} \<and> bit x (1 + m)) \<or> (m \<in> {1, 3, 5, 7} \<and> bit x (m - 1))"
  unfolding swap_bits_def
  apply (simp only: bit_or_iff bit_and_iff bit_drop_bit_eq bit_push_bit_iff bit_AA bit_55 o_def)
  apply (auto simp: possible_bit_word)
  done

lemma bit_reverseBits: "bit (reverseBits a) m \<longleftrightarrow> m < 8 \<and> bit a (7 - m)"
proof (cases "m < 8")
  case True
  from below8[OF this] show ?thesis
    by (elim disjE)
      (simp_all add: reverseBits_def bit_swap_bits bit_swap_pairs bit_swap_nibbles)
next
  case False
  then show ?thesis
    by (simp add: reverseBits_def bit_swap_bits)
qed

text \<open>
  Claim C8. For every 32-bit input, \<^verbatim>\<open>reverseBits\<close> returns the reversal of the low byte
  and nothing else: bit \<open>m\<close> of the result is bit \<open>7 - m\<close> of the input for \<open>m < 8\<close> and is
  clear for \<open>m \<ge> 8\<close>, whatever the upper 24 bits of the input are. The result is the
  composition of the nibble swap, the swap of 2-bit pairs and the swap of neighbouring
  bits, and \<^verbatim>\<open>reverseBits(0b11010010) == 0b01001011\<close>.
\<close>

theorem reverseBits_low_byte:
  "reverseBits a = ucast (word_reverse (ucast a :: 8 word))
   \<and> (bit (reverseBits a) m \<longleftrightarrow> m < 8 \<and> bit a (7 - m))
   \<and> reverseBits a = swap_bits (swap_pairs (swap_nibbles a))
   \<and> reverseBits 0b11010010 = 0b01001011"
proof -
  have byte: "reverseBits a = ucast (word_reverse (ucast a :: 8 word))"
    by (rule bit_word_eqI) (auto simp: bit_reverseBits bit_simps)
  have example: "reverseBits 0b11010010 = 0b01001011"
    by (simp add: reverseBits_def swap_bits_def swap_pairs_def swap_nibbles_def)
  have bits: "bit (reverseBits a) m \<longleftrightarrow> m < 8 \<and> bit a (7 - m)"
    by (rule bit_reverseBits)
  have stages: "reverseBits a = swap_bits (swap_pairs (swap_nibbles a))"
    by (rule reverseBits_def)
  show ?thesis
    by (rule conjI[OF byte conjI[OF bits conjI[OF stages example]]])
qed

subsection \<open>The search for the n-th occurrence\<close>

lemma count_take_le: "count_list (take k vect) a \<le> k"
  by (metis count_le_length length_take min.cobounded2 order_trans)

lemma loop_unfold:
  "findInVector_loop a vect n iteration i =
     (if 0 \<le> i \<and> nat i < length vect then
        (if a = vect ! nat i then
           (if iteration = n then Some i
            else if iteration = INT_MAX \<or> i = INT_MAX then None
            else findInVector_loop a vect n (iteration + 1) (i + 1))
         else if i = INT_MAX then None
         else findInVector_loop a vect n iteration (i + 1))
      else Some (- 1))"
  by (rule findInVector_loop.simps)

text \<open>
  The loop invariant: \<^verbatim>\<open>iteration\<close> is one more than the number of occurrences before
  \<^verbatim>\<open>i\<close>. With fewer than \<^verbatim>\<open>INT_MAX\<close> elements neither counter overflows.
\<close>

lemma loop_found_or_absent:
  assumes "length vect < 2 ^ 31 - 1" "0 \<le> i" "nat i \<le> length vect"
    "iteration = 1 + int (count_list (take (nat i) vect) a)" "iteration \<le> n"
  shows "found_or_absent a vect n (findInVector_loop a vect n iteration i)"
  using assms
proof (induction a vect n iteration i rule: findInVector_loop.induct)
  case (1 a vect n iteration i)
  show ?case
  proof (cases "nat i < length vect")
    case False
    with "1.prems" have len: "nat i = length vect" by simp
    then have "findInVector_loop a vect n iteration i = Some (- 1)"
      by (subst loop_unfold) simp
    moreover have "int (count_list vect a) < n"
      using "1.prems"(4,5) len by simp
    ultimately show ?thesis by (simp add: found_or_absent_def)
  next
    case True
    have i_small: "i < INT_MAX"
      using True "1.prems"(1,2) by (simp add: INT_MAX_def)
    have tk: "take (nat (i + 1)) vect = take (nat i) vect @ [vect ! nat i]"
      using True "1.prems"(2) by (simp add: nat_add_distrib take_Suc_conv_app_nth)
    have le_i: "int (count_list (take (nat i) vect) a) \<le> i"
      using count_take_le[of "nat i" vect a] "1.prems"(2) by linarith
    have it_small: "iteration < INT_MAX"
      using le_i i_small "1.prems"(4) True "1.prems"(1) by (simp add: INT_MAX_def)
    have next_le: "nat (i + 1) \<le> length vect"
      using True "1.prems"(2) by simp
    show ?thesis
    proof (cases "a = vect ! nat i")
      case neq: False
      have step: "findInVector_loop a vect n iteration i
                  = findInVector_loop a vect n iteration (i + 1)"
        using True neq "1.prems"(2) i_small by (subst loop_unfold) simp
      have cnt: "iteration = 1 + int (count_list (take (nat (i + 1)) vect) a)"
        using neq "1.prems"(4) by (simp add: tk)
      have "found_or_absent a vect n (findInVector_loop a vect n iteration (i + 1))"
        using "1.IH"(2)[OF _ neq _ "1.prems"(1) _ next_le cnt "1.prems"(5)]
          True "1.prems"(2) i_small
        by simp
      then show ?thesis by (simp only: step)
    next
      case eq: True
      show ?thesis
      proof (cases "iteration = n")
        case hit: True
        have r: "findInVector_loop a vect n iteration i = Some (int (nat i))"
          using \<open>nat i < length vect\<close> eq hit "1.prems"(2) by (subst loop_unfold) simp
        have "nth_occurrence_at a vect n (nat i)"
          using \<open>nat i < length vect\<close> eq hit "1.prems"(4) by (simp add: nth_occurrence_at_def)
        with r show ?thesis unfolding found_or_absent_def by blast
      next
        case miss: False
        have step: "findInVector_loop a vect n iteration i
                    = findInVector_loop a vect n (iteration + 1) (i + 1)"
          using \<open>nat i < length vect\<close> eq miss "1.prems"(2) i_small it_small
          by (subst loop_unfold) simp
        have cnt: "iteration + 1 = 1 + int (count_list (take (nat (i + 1)) vect) a)"
          using eq "1.prems"(4) by (simp add: tk)
        have le: "iteration + 1 \<le> n"
          using miss "1.prems"(5) by simp
        have ok: "\<not> (iteration = INT_MAX \<or> i = INT_MAX)"
          using i_small it_small by simp
        have "found_or_absent a vect n (findInVector_loop a vect n (iteration + 1) (i + 1))"
          using "1.IH"(1)[OF _ eq miss ok "1.prems"(1) _ next_le cnt le]
            \<open>nat i < length vect\<close> "1.prems"(2)
          by simp
        then show ?thesis by (simp only: step)
      qed
    qed
  qed
qed

lemma nth_occurrence_count:
  assumes "nth_occurrence_at a vect n j"
  shows "n \<le> int (count_list vect a)"
proof -
  from assms have j: "j < length vect" and e: "vect ! j = a"
    and c: "int (count_list (take j vect) a) = n - 1"
    by (simp_all add: nth_occurrence_at_def)
  have "vect = take j vect @ vect ! j # drop (Suc j) vect"
    using j by (rule id_take_nth_drop)
  then have "count_list vect a = count_list (take j vect @ vect ! j # drop (Suc j) vect) a"
    by simp
  also have "\<dots> = count_list (take j vect) a + 1 + count_list (drop (Suc j) vect) a"
    using e by simp
  finally show ?thesis using c by simp
qed

text \<open>
  Claim C9. For a vector of fewer than \<^verbatim>\<open>INT_MAX\<close> elements and every \<open>n \<ge> 1\<close>, the search
  returns the index of the \<open>n\<close>-th occurrence of the target (counted from 1) when the target
  occurs at least \<open>n\<close> times, and the sentinel \<open>-1\<close> when it occurs fewer than \<open>n\<close> times;
  \<^verbatim>\<open>findInVector(3, {1,2,3,4,3}, 2) == 4\<close>.
\<close>

theorem findInVector_nth_occurrence:
  assumes "length vect < 2 ^ 31 - 1" and "1 \<le> n"
  shows "(n \<le> int (count_list vect a) \<longrightarrow>
            (\<exists>j. findInVector_nth a vect n = Some (int j) \<and> nth_occurrence_at a vect n j))
       \<and> (int (count_list vect a) < n \<longrightarrow> findInVector_nth a vect n = Some (- 1))
       \<and> findInVector_nth (3::int) [1, 2, 3, 4, 3] 2 = Some 4"
proof -
  have "found_or_absent a vect n (findInVector_nth a vect n)"
    unfolding findInVector_nth_def
    using assms by (intro loop_found_or_absent) simp_all
  then consider (found) j where "findInVector_nth a vect n = Some (int j)" "nth_occurrence_at a vect n j"
    | (absent) "findInVector_nth a vect n = Some (- 1)" "int (count_list vect a) < n"
    unfolding found_or_absent_def by blast
  then have main: "(n \<le> int (count_list vect a) \<longrightarrow>
            (\<exists>j. findInVector_nth a vect n = Some (int j) \<and> nth_occurrence_at a vect n j))
       \<and> (int (count_list vect a) < n \<longrightarrow> findInVector_nth a vect n = Some (- 1))"
  proof cases
    case found
    from nth_occurrence_count[OF found(2)] found show ?thesis by auto
  next
    case absent
    then show ?thesis by auto
  qed
  have example: "findInVector_nth (3::int) [1, 2, 3, 4, 3] 2 = Some 4"
    by (simp add: findInVector_nth_def INT_MAX_def)
  show ?thesis
    by (rule conjI[OF conjunct1[OF main] conjI[OF conjunct2[OF main] example]])
qed

theorem findInVector_nth_occurrence_witness:
  "\<exists>j. findInVector_nth (3::int) [1, 2, 3, 4, 3] 2 = Some (int j)
      \<and> nth_occurrence_at (3::int) [1, 2, 3, 4, 3] 2 j"
proof -
  have len: "length [1, 2, 3, 4, 3::int] < 2 ^ 31 - 1" and n: "(1::int) \<le> 2"
    and twice: "2 \<le> int (count_list [1, 2, 3, 4, 3::int] 3)"
    by simp_all
  from findInVector_nth_occurrence [OF len n, of 3] have
    "2 \<le> int (count_list [1, 2, 3, 4, 3::int] 3) \<longrightarrow>
       (\<exists>j. findInVector_nth (3::int) [1, 2, 3, 4, 3] 2 = Some (int j)
          \<and> nth_occurrence_at (3::int) [1, 2, 3, 4, 3] 2 j)"
    by (rule conjunct1)
  then show ?thesis using twice by (rule mp)
qed

lemma loop_never_hits:
  assumes "length vect < 2 ^ 31 - 1" "0 \<le> i" "nat i \<le> length vect"
    "iteration = 1 + int (count_list (take (nat i) vect) a)" "n < iteration"
  shows "findInVector_loop a vect n iteration i = Some (- 1)"
  using assms
proof (induction a vect n iteration i rule: findInVector_loop.induct)
  case (1 a vect n iteration i)
  show ?case
  proof (cases "nat i < length vect")
    case False
    then show ?thesis by (subst loop_unfold) simp
  next
    case True
    have i_small: "i < INT_MAX"
      using True "1.prems"(1,2) by (simp add: INT_MAX_def)
    have tk: "take (nat (i + 1)) vect = take (nat i) vect @ [vect ! nat i]"
      using True "1.prems"(2) by (simp add: nat_add_distrib take_Suc_conv_app_nth)
    have le_i: "int (count_list (take (nat i) vect) a) \<le> i"
      using count_take_le[of "nat i" vect a] "1.prems"(2) by linarith
    have it_small: "iteration < INT_MAX"
      using le_i i_small "1.prems"(4) True "1.prems"(1) by (simp add: INT_MAX_def)
    have next_le: "nat (i + 1) \<le> length vect"
      using True "1.prems"(2) by simp
    have miss: "iteration \<noteq> n"
      using "1.prems"(5) by simp
    have ok: "\<not> (iteration = INT_MAX \<or> i = INT_MAX)"
      using i_small it_small by simp
    have guard: "0 \<le> i \<and> nat i < length vect"
      using True "1.prems"(2) by simp
    show ?thesis
    proof (cases "a = vect ! nat i")
      case neq: False
      have "findInVector_loop a vect n iteration i
                  = findInVector_loop a vect n iteration (i + 1)"
        using guard neq i_small by (subst loop_unfold) simp
      also have "\<dots> = Some (- 1)"
      proof (rule "1.IH"(2)[OF guard neq _ "1.prems"(1) _ next_le _ "1.prems"(5)])
        show "i \<noteq> INT_MAX" using i_small by simp
        show "0 \<le> i + 1" using "1.prems"(2) by simp
        show "iteration = 1 + int (count_list (take (nat (i + 1)) vect) a)"
          using neq "1.prems"(4) by (simp add: tk)
      qed
      finally show ?thesis .
    next
      case eq: True
      have "findInVector_loop a vect n iteration i
                    = findInVector_loop a vect n (iteration + 1) (i + 1)"
        using guard eq miss ok by (subst loop_unfold) simp
      also have "\<dots> = Some (- 1)"
      proof (rule "1.IH"(1)[OF guard eq miss ok "1.prems"(1) _ next_le])
        show "0 \<le> i + 1" using "1.prems"(2) by simp
        show "iteration + 1 = 1 + int (count_list (take (nat (i + 1)) vect) a)"
          using eq "1.prems"(4) by (simp add: tk)
        show "n < iteration + 1" using "1.prems"(5) by simp
      qed
      finally show ?thesis .
    qed
  qed
qed

text \<open>
  Claim C10. For a vector of fewer than \<^verbatim>\<open>INT_MAX\<close> elements and every \<open>n \<le> 0\<close>, the search
  returns the sentinel \<open>-1\<close>: \<^verbatim>\<open>iteration\<close> starts at 1 and only grows, so it never equals
  \<open>n\<close>.
\<close>

theorem findInVector_nth_nonpositive:
  assumes "length vect < 2 ^ 31 - 1" and "n \<le> 0"
  shows "findInVector_nth a vect n = Some (- 1)"
  unfolding findInVector_nth_def
  using assms by (intro loop_never_hits) simp_all

theorem findInVector_nth_nonpositive_witness:
  "findInVector_nth (3::int) [1, 2, 3, 4, 3] 0 = Some (- 1)
   \<and> findInVector_nth (3::int) [1, 2, 3, 4, 3] (- 2) = Some (- 1)"
proof -
  have len: "length [1, 2, 3, 4, 3::int] < 2 ^ 31 - 1"
    by simp
  show ?thesis
    by (rule conjI; rule findInVector_nth_nonpositive [OF len]; simp)
qed

section \<open>Properties of the stateful generators\<close>

lemma seed_of_call: "seed_of e' (call e st) = (if e' = e then seed_of e st + 1 else seed_of e' st)"
  by (cases e; cases e')
    (simp_all add: LehmerInt64_next_def LehmerFloat_next_def randBool_next_def Let_def)

lemma seed_of_run: "seed_of e (run cs st) = seed_of e st + of_nat (count_list cs e)"
  by (induction cs arbitrary: st) (simp_all add: seed_of_call)

lemma seed_of_initial: "seed_of e initial = 0"
  by (cases e) (simp_all add: initial_def)

lemma queried_eq: "queried e cs = of_nat (count_list cs e + 1)"
  by (simp add: queried_def seed_of_call seed_of_run seed_of_initial)

lemma of_nat_distinct:
  assumes "i < j" "j - i < 2 ^ 64"
  shows "(of_nat i :: uint64) \<noteq> of_nat j"
proof
  assume "(of_nat i :: uint64) = of_nat j"
  then have "(of_nat (j - i) :: uint64) = 0"
    using assms(1) by (simp add: of_nat_diff)
  then have "2 ^ 64 dvd j - i"
    by (simp add: word_of_nat_eq_0_iff)
  with assms show False
    by (auto dest: dvd_imp_le)
qed

lemma queried_same_iff:
  "queried e cs = queried e cs' \<longleftrightarrow>
     count_list cs e mod 2 ^ 64 = count_list cs' e mod 2 ^ 64"
  unfolding queried_eq by (simp add: word_of_nat_eq_iff take_bit_eq_mod)

text \<open>
  Claim C4. Each entry point without a parameter owns a counter that starts at 0, grows by
  one on every call of that entry point and on no other call, and is handed, after the
  increment, to the pure function as its seed: the call that follows the history \<open>cs\<close>
  queries the mixer with the number of calls of \<open>e\<close> made so far, plus one, as a 64-bit
  value. So two successive calls query distinct seeds, and so do any two calls of the same
  entry point within one run of the process that are fewer than \<open>2^64\<close> calls apart, which
  is the period of a \<^verbatim>\<open>uint64_t\<close> counter: two calls query the same seed exactly when the
  numbers of calls before them are equal modulo \<open>2^64\<close>.
\<close>

theorem counters_distinct_seeds:
  assumes "count_list cs e < count_list cs' e" and "count_list cs' e - count_list cs e < 2 ^ 64"
  shows "queried e cs \<noteq> queried e cs'
       \<and> queried e cs \<noteq> queried e (cs @ [e])
       \<and> queried e cs = of_nat (count_list cs e + 1)
       \<and> (queried e cs = queried e cs'
            \<longleftrightarrow> count_list cs e mod 2 ^ 64 = count_list cs' e mod 2 ^ 64)
       \<and> seed_of e initial = 0
       \<and> seed_of e' (call e st) = (if e' = e then seed_of e st + 1 else seed_of e' st)
       \<and> fst (LehmerInt64_next st) = LehmerInt64 (seed_int64 st + 1)
       \<and> fst (LehmerFloat_next st) = LehmerFloat (seed_float st + 1)
       \<and> fst (randBool_next st) = randBool (seed_bool st + 1)"
proof -
  have a: "queried e cs \<noteq> queried e cs'"
    unfolding queried_eq using assms by (intro of_nat_distinct) simp_all
  have b: "queried e cs \<noteq> queried e (cs @ [e])"
    unfolding queried_eq by (intro of_nat_distinct) simp_all
  have d: "fst (LehmerInt64_next st) = LehmerInt64 (seed_int64 st + 1)"
     "fst (LehmerFloat_next st) = LehmerFloat (seed_float st + 1)"
     "fst (randBool_next st) = randBool (seed_bool st + 1)"
    by (simp_all add: LehmerInt64_next_def LehmerFloat_next_def randBool_next_def Let_def
      LehmerFloat_def randBool_def)
  show ?thesis
    by (intro conjI a b d queried_eq queried_same_iff seed_of_initial seed_of_call)
qed

theorem counters_distinct_seeds_witness:
  "queried EntryFloat [] \<noteq> queried EntryFloat [EntryInt64, EntryFloat, EntryBool]
   \<and> queried EntryFloat [] = 1"
proof -
  have h: "count_list [] EntryFloat < count_list [EntryInt64, EntryFloat, EntryBool] EntryFloat"
    "count_list [EntryInt64, EntryFloat, EntryBool] EntryFloat - count_list [] EntryFloat < 2 ^ 64"
    by simp_all
  note all = counters_distinct_seeds[OF h, of EntryFloat initial]
  have later: "queried EntryFloat [] \<noteq> queried EntryFloat [EntryInt64, EntryFloat, EntryBool]"
    by (rule conjunct1[OF all])
  have "queried EntryFloat [] = of_nat (count_list [] EntryFloat + 1)"
    by (rule conjunct1[OF conjunct2[OF conjunct2[OF all]]])
  then have first: "queried EntryFloat [] = 1"
    by simp
  show ?thesis
    by (rule conjI[OF later first])
qed

section \<open>Properties of the rounding function\<close>

text \<open>
  The exponent search returns the binade of its argument, so a value in a known binade
  rounds by one call of \<open>rne\<close>, and a value \<open>m * 2^k\<close> with a 24-bit \<open>m\<close> and \<open>k\<close> in the
  range of binary32 is a \<^verbatim>\<open>float\<close> that rounding leaves alone.
\<close>

lemma pow2_powi: "pow2 e = 2 powi e"
  by (simp add: pow2_def power_int_def field_simps)

lemma pow2_pos: "0 < pow2 e"
  by (simp add: pow2_powi zero_less_power_int)

lemma pow2_add: "pow2 (a + b) = pow2 a * pow2 b"
  by (simp add: pow2_powi power_int_add)

lemma pow2_diff: "pow2 (a - b) = pow2 a / pow2 b"
  by (simp add: pow2_powi power_int_diff)

lemma pow2_less_iff: "pow2 a < pow2 b \<longleftrightarrow> a < b"
proof
  assume "pow2 a < pow2 b"
  show "a < b"
  proof (rule ccontr)
    assume "\<not> a < b"
    then have "pow2 b \<le> pow2 a"
      by (simp add: pow2_powi power_int_increasing)
    with \<open>pow2 a < pow2 b\<close> show False by simp
  qed
next
  assume "a < b"
  then show "pow2 a < pow2 b"
    by (simp add: pow2_powi power_int_strict_increasing)
qed

lemma pow2_le_iff: "pow2 a \<le> pow2 b \<longleftrightarrow> a \<le> b"
  using pow2_less_iff[of b a] by (auto simp: not_less[symmetric])

lemma expo_from_unfold:
  "expo_from e a = (if e < 127 \<and> pow2 (e + 1) \<le> a then expo_from (e + 1) a else e)"
  by (rule expo_from.simps)

lemma expo_from_ge: "e \<le> expo_from e a"
proof (induction e a rule: expo_from.induct)
  case (1 e a)
  show ?case
  proof (cases "e < 127 \<and> pow2 (e + 1) \<le> a")
    case True
    with 1 have "e + 1 \<le> expo_from (e + 1) a" by simp
    moreover have "expo_from e a = expo_from (e + 1) a"
      using True by (subst expo_from_unfold) simp
    ultimately show ?thesis by simp
  next
    case False
    then have "expo_from e a = e"
      by (subst expo_from_unfold) auto
    then show ?thesis by simp
  qed
qed

lemma expo_from_le: "e \<le> k \<Longrightarrow> a < pow2 (k + 1) \<Longrightarrow> expo_from e a \<le> k"
proof (induction e a rule: expo_from.induct)
  case (1 e a)
  show ?case
  proof (cases "e < 127 \<and> pow2 (e + 1) \<le> a")
    case True
    then have "pow2 (e + 1) < pow2 (k + 1)"
      using "1.prems"(2) by simp
    then have "e + 1 \<le> k"
      by (simp add: pow2_less_iff)
    with 1 True have "expo_from (e + 1) a \<le> k" by simp
    moreover have "expo_from e a = expo_from (e + 1) a"
      using True by (subst expo_from_unfold) simp
    ultimately show ?thesis by simp
  next
    case False
    then have "expo_from e a = e"
      by (subst expo_from_unfold) auto
    with "1.prems" show ?thesis by simp
  qed
qed

lemma expo_from_ge_binade: "k \<le> 127 \<Longrightarrow> pow2 k \<le> a \<Longrightarrow> k \<le> expo_from e a"
proof (induction e a rule: expo_from.induct)
  case (1 e a)
  show ?case
  proof (cases "e < 127 \<and> pow2 (e + 1) \<le> a")
    case True
    with 1 have "k \<le> expo_from (e + 1) a" by simp
    moreover have "expo_from e a = expo_from (e + 1) a"
      using True by (subst expo_from_unfold) simp
    ultimately show ?thesis by simp
  next
    case False
    then have eq: "expo_from e a = e"
      by (subst expo_from_unfold) auto
    from False consider "127 \<le> e" | "a < pow2 (e + 1)" by force
    then have "k \<le> e"
    proof cases
      case 1
      with \<open>k \<le> 127\<close> show ?thesis by simp
    next
      case 2
      with \<open>pow2 k \<le> a\<close> have "pow2 k < pow2 (e + 1)" by simp
      then show ?thesis by (simp add: pow2_less_iff)
    qed
    with eq show ?thesis by simp
  qed
qed

lemma expo_lower: "- 126 \<le> expo a"
  unfolding expo_def by (rule expo_from_ge)

lemma expo_eq:
  assumes "- 126 \<le> e" "e \<le> 127" "pow2 e \<le> a" "a < pow2 (e + 1)"
  shows "expo a = e"
proof -
  have "expo a \<le> e"
    unfolding expo_def using assms(1,4) by (rule expo_from_le)
  moreover have "e \<le> expo a"
    unfolding expo_def using assms(2,3) by (rule expo_from_ge_binade)
  ultimately show ?thesis by simp
qed

lemma rne_of_int: "rne (of_int z) = z"
  by (simp add: rne_def)

lemma rne_nearest:
  assumes "of_int n - 1 / 2 < q" "q < of_int n + 1 / 2"
  shows "rne q = n"
proof (cases "of_int n \<le> q")
  case True
  then have "\<lfloor>q\<rfloor> = n"
    using assms(2) by (intro floor_unique) simp_all
  then show ?thesis
    using assms(2) by (simp add: rne_def Let_def)
next
  case False
  then have "\<lfloor>q\<rfloor> = n - 1"
    using assms(1) by (intro floor_unique) simp_all
  then show ?thesis
    using assms(1) False by (simp add: rne_def Let_def)
qed

lemma round32_binade:
  assumes "- 126 \<le> e" "e \<le> 127" "pow2 e \<le> \<bar>x\<bar>" "\<bar>x\<bar> < pow2 (e + 1)"
    and "\<bar>x\<bar> < 2 ^ 128 - 2 ^ 103"
  shows "round32 x = Fin (of_int (rne (x / pow2 (e - 23))) * pow2 (e - 23))"
  using assms(5) expo_eq[OF assms(1-4)] by (simp add: round32_def nearest32_def Let_def)

lemma round32_exact:
  assumes "\<bar>m\<bar> < 2 ^ 24" "- 149 \<le> k" "k \<le> 104"
  shows "round32 (of_int m * pow2 k) = Fin (of_int m * pow2 k)"
proof -
  define x :: rat where "x = of_int m * pow2 k"
  define e where "e = expo \<bar>x\<bar>"
  have absx: "\<bar>x\<bar> = of_int \<bar>m\<bar> * pow2 k"
    using pow2_pos[of k] by (simp add: x_def abs_mult)
  have m_le: "(of_int \<bar>m\<bar> :: rat) \<le> 2 ^ 24 - 1"
  proof -
    from assms(1) have "\<bar>m\<bar> \<le> 2 ^ 24 - 1" by simp
    then have "(of_int \<bar>m\<bar> :: rat) \<le> of_int (2 ^ 24 - 1)" by (simp only: of_int_le_iff)
    then show ?thesis by simp
  qed
  have "pow2 k \<le> pow2 104"
    using assms(3) by (simp add: pow2_le_iff)
  then have "\<bar>x\<bar> \<le> (2 ^ 24 - 1) * pow2 104"
    unfolding absx using m_le pow2_pos[of k] by (intro mult_mono) simp_all
  also have "\<dots> < 2 ^ 128 - 2 ^ 103"
    by (simp add: pow2_def)
  finally have fin: "\<not> 2 ^ 128 - 2 ^ 103 \<le> \<bar>x\<bar>" by simp
  have "\<bar>x\<bar> < 2 ^ 24 * pow2 k"
    unfolding absx using m_le pow2_pos[of k] by (intro mult_strict_right_mono) simp_all
  also have "\<dots> = pow2 ((k + 23) + 1)"
    by (simp add: pow2_add[of k 24] pow2_def[of 24] add.commute mult.commute)
  finally have "e \<le> k + 23"
    unfolding e_def expo_def using assms(2) by (intro expo_from_le) simp_all
  then obtain d where d: "k - (e - 23) = int d"
    by (metis diff_ge_0_iff_ge diff_diff_eq2 add.commute nonneg_int_cases diff_add_eq)
  have "pow2 k / pow2 (e - 23) = pow2 (int d)"
    using d by (simp add: pow2_diff[symmetric])
  also have "\<dots> = of_int (2 ^ d)"
    by (simp add: pow2_def)
  finally have "of_int m * (pow2 k / pow2 (e - 23)) = (of_int (m * 2 ^ d) :: rat)"
    by simp
  then have quot: "x / pow2 (e - 23) = of_int (m * 2 ^ d)"
    by (simp add: x_def)
  have rescale: "(of_int (2 ^ d) :: rat) * pow2 (e - 23) = pow2 k"
  proof -
    have "(of_int (2 ^ d) :: rat) = pow2 (int d)" by (simp add: pow2_def)
    then have "(of_int (2 ^ d) :: rat) * pow2 (e - 23) = pow2 (int d + (e - 23))"
      by (simp add: pow2_add)
    also have "int d + (e - 23) = k" using d by simp
    finally show ?thesis .
  qed
  have "round32 x = Fin (of_int (rne (x / pow2 (e - 23))) * pow2 (e - 23))"
    using fin by (simp add: round32_def nearest32_def Let_def e_def)
  also have "of_int (rne (x / pow2 (e - 23))) * pow2 (e - 23) = of_int m * (of_int (2 ^ d) * pow2 (e - 23))"
    by (simp only: quot rne_of_int) simp
  also have "\<dots> = x"
    by (simp only: rescale x_def)
  finally show ?thesis by (simp add: x_def)
qed

text \<open>
  Rounding is monotone: \<open>rne\<close> and the exponent search are, and a value rounds to a number
  between the ends of its binade.
\<close>

lemma rne_cases: "rne q = \<lfloor>q\<rfloor> \<or> rne q = \<lfloor>q\<rfloor> + 1"
  by (simp add: rne_def Let_def)

lemma rne_mono:
  assumes "q \<le> q'"
  shows "rne q \<le> rne q'"
proof (cases "\<lfloor>q\<rfloor> < \<lfloor>q'\<rfloor>")
  case True
  have "rne q \<le> \<lfloor>q\<rfloor> + 1" using rne_cases[of q] by auto
  also have "\<dots> \<le> \<lfloor>q'\<rfloor>" using True by simp
  also have "\<dots> \<le> rne q'" using rne_cases[of q'] by auto
  finally show ?thesis .
next
  case False
  with floor_mono[OF assms] have eq: "\<lfloor>q'\<rfloor> = \<lfloor>q\<rfloor>" by simp
  have "q - of_int \<lfloor>q\<rfloor> \<le> q' - of_int \<lfloor>q\<rfloor>" using assms by simp
  then show ?thesis
    by (simp add: rne_def Let_def eq)
qed

lemma rne_ge: "of_int n \<le> q \<Longrightarrow> n \<le> rne q"
  using rne_mono[of "of_int n" q] by (simp add: rne_of_int)

lemma rne_le: "q \<le> of_int n \<Longrightarrow> rne q \<le> n"
  using rne_mono[of q "of_int n"] by (simp add: rne_of_int)

lemma expo_from_le_127: "e \<le> 127 \<Longrightarrow> expo_from e a \<le> 127"
proof (induction e a rule: expo_from.induct)
  case (1 e a)
  show ?case
  proof (cases "e < 127 \<and> pow2 (e + 1) \<le> a")
    case True
    with 1 have "expo_from (e + 1) a \<le> 127" by simp
    moreover have "expo_from e a = expo_from (e + 1) a"
      using True by (subst expo_from_unfold) simp
    ultimately show ?thesis by simp
  next
    case False
    then have "expo_from e a = e"
      by (subst expo_from_unfold) auto
    with "1.prems" show ?thesis by simp
  qed
qed

lemma expo_from_binade_upper: "expo_from e a < 127 \<Longrightarrow> a < pow2 (expo_from e a + 1)"
proof (induction e a rule: expo_from.induct)
  case (1 e a)
  show ?case
  proof (cases "e < 127 \<and> pow2 (e + 1) \<le> a")
    case True
    then have eq: "expo_from e a = expo_from (e + 1) a"
      by (subst expo_from_unfold) simp
    with 1 True show ?thesis by simp
  next
    case False
    then have eq: "expo_from e a = e"
      by (subst expo_from_unfold) auto
    with "1.prems" False show ?thesis by auto
  qed
qed

lemma expo_from_binade_lower: "e < expo_from e a \<Longrightarrow> pow2 (expo_from e a) \<le> a"
proof (induction e a rule: expo_from.induct)
  case (1 e a)
  show ?case
  proof (cases "e < 127 \<and> pow2 (e + 1) \<le> a")
    case True
    then have eq: "expo_from e a = expo_from (e + 1) a"
      by (subst expo_from_unfold) simp
    show ?thesis
    proof (cases "e + 1 < expo_from (e + 1) a")
      case next_above: True
      with 1 True eq show ?thesis by simp
    next
      case False
      with expo_from_ge[of "e + 1" a] have "expo_from (e + 1) a = e + 1" by simp
      with True eq show ?thesis by simp
    qed
  next
    case False
    then have "expo_from e a = e"
      by (subst expo_from_unfold) auto
    with "1.prems" show ?thesis by simp
  qed
qed

lemma expo_upper: "expo a \<le> 127"
  unfolding expo_def by (rule expo_from_le_127) simp

lemma expo_binade_upper: "expo a < 127 \<Longrightarrow> a < pow2 (expo a + 1)"
  unfolding expo_def by (rule expo_from_binade_upper)

lemma expo_binade_lower: "- 126 < expo a \<Longrightarrow> pow2 (expo a) \<le> a"
  unfolding expo_def by (rule expo_from_binade_lower)

lemma expo_mono:
  assumes "a \<le> a'"
  shows "expo a \<le> expo a'"
proof (cases "- 126 < expo a")
  case True
  then have "pow2 (expo a) \<le> a'"
    using expo_binade_lower[of a] assms by simp
  then show ?thesis
    unfolding expo_def[of a'] using expo_upper[of a] by (intro expo_from_ge_binade)
next
  case False
  with expo_lower[of a] expo_lower[of a'] show ?thesis by simp
qed


lemma rne_minus: "rne (- q) = - rne q"
proof (cases "q = of_int \<lfloor>q\<rfloor>")
  case True
  then have "rne (- q) = rne (of_int (- \<lfloor>q\<rfloor>))" by simp
  also have "\<dots> = - \<lfloor>q\<rfloor>" by (rule rne_of_int)
  also have "\<lfloor>q\<rfloor> = rne q" using True rne_of_int[of "\<lfloor>q\<rfloor>"] by simp
  finally show ?thesis .
next
  case False
  then have "of_int \<lfloor>q\<rfloor> < q"
    using of_int_floor_le[of q] by (metis order_le_imp_less_or_eq)
  then have fl: "\<lfloor>- q\<rfloor> = - \<lfloor>q\<rfloor> - 1"
    by (intro floor_unique) (simp_all add: algebra_simps, linarith)
  show ?thesis
    using False by (auto simp: rne_def Let_def fl)
qed

lemma nearest32_minus: "nearest32 (- x) = - nearest32 x"
  by (simp add: nearest32_def Let_def rne_minus)

lemma nearest32_nonneg: "0 \<le> x \<Longrightarrow> 0 \<le> nearest32 x"
proof -
  assume "0 \<le> x"
  then have "0 \<le> x / pow2 (expo \<bar>x\<bar> - 23)"
    using pow2_pos[of "expo \<bar>x\<bar> - 23"] by simp
  then have "0 \<le> rne (x / pow2 (expo \<bar>x\<bar> - 23))"
    using rne_ge[of 0] by simp
  then show ?thesis
    using pow2_pos[of "expo \<bar>x\<bar> - 23"] by (simp add: nearest32_def Let_def)
qed

lemma pow2_split: "pow2 (e + 1) = 2 ^ 24 * pow2 (e - 23)"
proof -
  have "e + 1 = 24 + (e - 23)" by simp
  then have "pow2 (e + 1) = pow2 (24 + (e - 23))" by (rule arg_cong)
  also have "\<dots> = pow2 24 * pow2 (e - 23)" by (rule pow2_add)
  finally show ?thesis by (simp add: pow2_def)
qed

lemma pow2_split': "pow2 e = 2 ^ 23 * pow2 (e - 23)"
proof -
  have "e = 23 + (e - 23)" by simp
  then have "pow2 e = pow2 (23 + (e - 23))" by (rule arg_cong)
  also have "\<dots> = pow2 23 * pow2 (e - 23)" by (rule pow2_add)
  finally show ?thesis by (simp add: pow2_def)
qed

lemma nearest32_binade_upper:
  assumes "0 \<le> x" "expo x < 127"
  shows "nearest32 x \<le> pow2 (expo x + 1)"
proof -
  define u where "u = pow2 (expo x - 23)"
  have u: "0 < u" unfolding u_def by (rule pow2_pos)
  have top: "pow2 (expo x + 1) = 2 ^ 24 * u"
    unfolding u_def by (rule pow2_split)
  have val: "nearest32 x = of_int (rne (x / u)) * u"
    using assms(1) by (simp add: nearest32_def Let_def u_def)
  have "x < 2 ^ 24 * u"
    using expo_binade_upper[OF assms(2)] by (simp only: top)
  then have "x / u \<le> of_int (2 ^ 24)"
    using u by (simp add: field_simps)
  then have "rne (x / u) \<le> 2 ^ 24" by (rule rne_le)
  then have "(of_int (rne (x / u)) :: rat) \<le> of_int (2 ^ 24)" by (simp only: of_int_le_iff)
  then have "of_int (rne (x / u)) * u \<le> 2 ^ 24 * u"
    using u by simp
  then show ?thesis
    by (simp only: val top)
qed

lemma nearest32_binade_lower:
  assumes "0 \<le> y" "- 126 < expo y"
  shows "pow2 (expo y) \<le> nearest32 y"
proof -
  define u where "u = pow2 (expo y - 23)"
  have u: "0 < u" unfolding u_def by (rule pow2_pos)
  have bottom: "pow2 (expo y) = 2 ^ 23 * u"
    unfolding u_def by (rule pow2_split')
  have val: "nearest32 y = of_int (rne (y / u)) * u"
    using assms(1) by (simp add: nearest32_def Let_def u_def)
  have "2 ^ 23 * u \<le> y"
    using expo_binade_lower[OF assms(2)] by (simp only: bottom)
  then have "of_int (2 ^ 23) \<le> y / u"
    using u by (simp add: field_simps)
  then have "2 ^ 23 \<le> rne (y / u)" by (rule rne_ge)
  then have "(of_int (2 ^ 23) :: rat) \<le> of_int (rne (y / u))" by (simp only: of_int_le_iff)
  then have "2 ^ 23 * u \<le> of_int (rne (y / u)) * u"
    using u by simp
  then show ?thesis
    by (simp only: val bottom)
qed

lemma nearest32_mono_nonneg:
  assumes "0 \<le> x" "x \<le> y"
  shows "nearest32 x \<le> nearest32 y"
proof (cases "expo x = expo y")
  case True
  define u where "u = pow2 (expo y - 23)"
  have u: "0 < u" unfolding u_def by (rule pow2_pos)
  have "x / u \<le> y / u" using assms(2) u by (simp add: divide_right_mono)
  then have "rne (x / u) \<le> rne (y / u)" by (rule rne_mono)
  then have "(of_int (rne (x / u)) :: rat) \<le> of_int (rne (y / u))" by (simp only: of_int_le_iff)
  then have "of_int (rne (x / u)) * u \<le> of_int (rne (y / u)) * u"
    using u by simp
  then show ?thesis
    using assms True by (simp add: nearest32_def Let_def u_def)
next
  case False
  with expo_mono[OF assms(2)] have lt: "expo x < expo y" by simp
  have y: "0 \<le> y" using assms by simp
  have "expo x < 127" using lt expo_upper[of y] by simp
  then have "nearest32 x \<le> pow2 (expo x + 1)"
    using assms(1) by (intro nearest32_binade_upper)
  also have "\<dots> \<le> pow2 (expo y)"
    using lt by (simp add: pow2_le_iff)
  also have "\<dots> \<le> nearest32 y"
    using y lt expo_lower[of x] by (intro nearest32_binade_lower) simp_all
  finally show ?thesis .
qed

lemma nearest32_mono:
  assumes "x \<le> y"
  shows "nearest32 x \<le> nearest32 y"
proof -
  consider "0 \<le> x" | "y \<le> 0" | "x < 0" "0 < y" by linarith
  then show ?thesis
  proof cases
    case 1
    then show ?thesis using assms by (rule nearest32_mono_nonneg)
  next
    case 2
    then have "nearest32 (- y) \<le> nearest32 (- x)"
      using assms by (intro nearest32_mono_nonneg) simp_all
    then show ?thesis by (simp add: nearest32_minus)
  next
    case 3
    have "0 \<le> nearest32 (- x)" using 3(1) by (intro nearest32_nonneg) simp
    then have "nearest32 x \<le> 0" by (simp add: nearest32_minus)
    also have "0 \<le> nearest32 y" using 3(2) by (intro nearest32_nonneg) simp
    finally show ?thesis .
  qed
qed

lemma round32_not_NaN: "round32 x \<noteq> NaN"
  by (simp add: round32_def)

lemma round32_mono:
  assumes "x \<le> y"
  shows "fle (round32 x) (round32 y)"
proof -
  consider "2 ^ 128 - 2 ^ 103 \<le> y" | "x \<le> - (2 ^ 128 - 2 ^ 103)"
    | "- (2 ^ 128 - 2 ^ 103) < x" "y < 2 ^ 128 - 2 ^ 103"
    by linarith
  then show ?thesis
  proof cases
    case 1
    then have "round32 y = PInf" by (simp add: round32_def)
    then show ?thesis
      using round32_not_NaN[of x] by (cases "round32 x") simp_all
  next
    case 2
    then have "round32 x = NInf" by (simp add: round32_def)
    then show ?thesis
      using round32_not_NaN[of y] by (cases "round32 y") simp_all
  next
    case 3
    with assms have "\<bar>x\<bar> < 2 ^ 128 - 2 ^ 103" "\<bar>y\<bar> < 2 ^ 128 - 2 ^ 103"
      by simp_all
    then show ?thesis
      using nearest32_mono[OF assms] by (simp add: round32_def)
  qed
qed

text \<open>The values that the examples of the specification pass through.\<close>

lemma floor_rat_numeral: "\<lfloor>numeral a / numeral b :: rat\<rfloor> = numeral a div numeral b"
  using floor_divide_of_int_eq[of "numeral a" "numeral b", where ?'a = rat] by simp

lemma round32_values:
  "round32 0 = Fin 0" "round32 1 = Fin 1" "round32 (1 / 2) = Fin (1 / 2)"
  "round32 (- (1 / 2)) = Fin (- (1 / 2))" "round32 (3 / 2) = Fin (3 / 2)"
  "round32 (- 5) = Fin (- 5)" "round32 5 = Fin 5" "round32 10 = Fin 10" "round32 15 = Fin 15"
  "round32 100 = Fin 100" "round32 (- (5 / 2)) = Fin (- (5 / 2))" "round32 (15 / 2) = Fin (15 / 2)"
  using round32_exact[of 0 0] round32_exact[of 1 0] round32_exact[of 1 "- 1"]
    round32_exact[of "- 1" "- 1"] round32_exact[of 3 "- 1"] round32_exact[of "- 5" 0]
    round32_exact[of 5 0] round32_exact[of 10 0] round32_exact[of 15 0] round32_exact[of 100 0]
    round32_exact[of "- 5" "- 1"] round32_exact[of 15 "- 1"]
  by (simp_all add: pow2_def)

lemma round32_large:
  "round32 2147483648 = Fin 2147483648"
  "round32 (1 / 8388608) = Fin (1 / 8388608)"
  "round32 (8388609 / 8388608) = Fin (8388609 / 8388608)"
  using round32_exact[of "2 ^ 23" 8] round32_exact[of 1 "- 23"] round32_exact[of "2 ^ 23 + 1" "- 23"]
  by (simp_all add: pow2_def)

lemma SMALL_NUMBER_value: "SMALL_NUMBER = Fin (11258999 / 2 ^ 50)"
  unfolding SMALL_NUMBER_def
  by (subst round32_binade[where e = "- 27"])
    (simp_all add: pow2_def rne_nearest[where n = 11258999])

lemma round32_inexact:
  "round32 4294967291 = Fin 4294967296"
  "round32 2147483658 = Fin 2147483648"
  "round32 (33554435 / 33554432) = Fin (8388609 / 8388608)"
    apply (subst round32_binade[where e = 31]; simp add: pow2_def rne_nearest[where n = 16777216])
   apply (subst round32_binade[where e = 31]; simp add: pow2_def rne_nearest[where n = 8388608])
  apply (subst round32_binade[where e = 0]; simp add: pow2_def rne_nearest[where n = 8388609])
  done

lemma round32_overflow: "round32 340282366920938463463374607431768211456 = PInf"
  by (simp add: round32_def)

section \<open>Properties of the numeric core and the range mapper\<close>

subsection \<open>Clamp\<close>

text \<open>
  The wording of claim C5 (the value if \<open>min \<le> value < max\<close>, \<open>min\<close> if \<open>value < min\<close>, \<open>max\<close>
  otherwise) fails for \<^verbatim>\<open>float\<close> when \<open>min\<close> is a NaN: \<^verbatim>\<open>Clamp(0.5f, NAN, 1.0f)\<close> finds
  \<^verbatim>\<open>value < Min\<close> false and \<^verbatim>\<open>value < Max\<close> true and returns \<open>0.5\<close>, where the wording gives
  \<open>max = 1\<close> because \<open>min \<le> value\<close> is false as well.
\<close>

theorem Clamp_NaN_min_counterexample:
  "fClamp (Fin (1 / 2)) NaN (Fin 1) = Fin (1 / 2)
   \<and> Clamp_spec fle flt (Fin (1 / 2)) NaN (Fin 1) = Fin 1
   \<and> fClamp (Fin (1 / 2)) NaN (Fin 1) \<noteq> Clamp_spec fle flt (Fin (1 / 2)) NaN (Fin 1)"
  by (simp add: fClamp_def Clamp_def Clamp_spec_def)

lemma fClamp_spec: "lo \<noteq> NaN \<Longrightarrow> fClamp x lo hi = Clamp_spec fle flt x lo hi"
  by (cases x; cases lo; cases hi) (auto simp: fClamp_def Clamp_def Clamp_spec_def)

lemma fClamp_in_range: "fle lo hi \<Longrightarrow> in_range lo hi (fClamp x lo hi)"
  by (cases x; cases lo; cases hi) (auto simp: fClamp_def Clamp_def in_range_def)

lemma fClamp_ends: "fle lo hi \<Longrightarrow> fClamp lo lo hi = lo \<and> fClamp hi lo hi = hi"
  by (cases lo; cases hi) (auto simp: fClamp_def Clamp_def)

text \<open>
  Claim C5, amended. \<^verbatim>\<open>Clamp(value, min, max)\<close> returns \<open>min\<close> if \<open>value < min\<close>, else
  \<open>value\<close> if \<open>value < max\<close>, else \<open>max\<close>. For a linearly ordered \<open>T\<close> (every integral type),
  and for \<^verbatim>\<open>float\<close> whenever \<open>min\<close> is not a NaN, that is: \<open>value\<close> if \<open>min \<le> value < max\<close>,
  \<open>min\<close> if \<open>value < min\<close>, \<open>max\<close> otherwise. Whenever \<open>min \<le> max\<close> the result lies in
  \<open>[min, max]\<close>, \<^verbatim>\<open>Clamp(min, min, max) == min\<close> and \<^verbatim>\<open>Clamp(max, min, max) == max\<close>.
\<close>

theorem Clamp_cases:
  fixes v mn mx :: "'t::linorder" and x lo hi :: float and w a b :: 'u
  shows "Clamp lt w a b = (if lt w a then a else if lt w b then w else b)
    \<and> Clamp (<) v mn mx = Clamp_spec (\<le>) (<) v mn mx
    \<and> (mn \<le> mx \<longrightarrow> mn \<le> Clamp (<) v mn mx \<and> Clamp (<) v mn mx \<le> mx
                     \<and> Clamp (<) mn mn mx = mn \<and> Clamp (<) mx mn mx = mx)
    \<and> (lo \<noteq> NaN \<longrightarrow> fClamp x lo hi = Clamp_spec fle flt x lo hi)
    \<and> (fle lo hi \<longrightarrow> in_range lo hi (fClamp x lo hi)
                     \<and> fClamp lo lo hi = lo \<and> fClamp hi lo hi = hi)"
proof -
  have generic: "Clamp lt w a b = (if lt w a then a else if lt w b then w else b)"
    by (simp add: Clamp_def)
  have linear: "Clamp (<) v mn mx = Clamp_spec (\<le>) (<) v mn mx"
    by (auto simp: Clamp_def Clamp_spec_def)
  have bounds: "mn \<le> mx \<longrightarrow> mn \<le> Clamp (<) v mn mx \<and> Clamp (<) v mn mx \<le> mx
                     \<and> Clamp (<) mn mn mx = mn \<and> Clamp (<) mx mn mx = mx"
    by (auto simp: Clamp_def)
  have float_spec: "lo \<noteq> NaN \<longrightarrow> fClamp x lo hi = Clamp_spec fle flt x lo hi"
    using fClamp_spec by blast
  have float_bounds: "fle lo hi \<longrightarrow> in_range lo hi (fClamp x lo hi)
                     \<and> fClamp lo lo hi = lo \<and> fClamp hi lo hi = hi"
    using fClamp_in_range fClamp_ends by blast
  show ?thesis
    by (rule conjI[OF generic conjI[OF linear conjI[OF bounds conjI[OF float_spec float_bounds]]]])
qed

theorem Clamp_cases_witness:
  "Clamp (<) (15::int) 0 10 = 10 \<and> Clamp (<) (- 5::int) 0 10 = 0
   \<and> fClamp NaN (Fin 0) (Fin 1) = Clamp_spec fle flt NaN (Fin 0) (Fin 1)
   \<and> in_range (Fin 0) (Fin 1) (fClamp (Fin (3 / 2)) (Fin 0) (Fin 1))"
proof -
  note int_case = Clamp_cases [where 't = int and 'u = int and v = 15 and mn = 0 and mx = 10
      and x = NaN and lo = "Fin 0" and hi = "Fin 1" and lt = "(<)" and w = "- 5" and a = 0 and b = 10]
  note float_case = Clamp_cases [where 't = int and 'u = int and v = 15 and mn = 0 and mx = 10
      and x = "Fin (3 / 2)" and lo = "Fin 0" and hi = "Fin 1"]
  have "Clamp (<) (15::int) 0 10 = Clamp_spec (\<le>) (<) 15 0 10"
    by (rule conjunct1[OF conjunct2[OF int_case]])
  then have one: "Clamp (<) (15::int) 0 10 = 10"
    by (simp add: Clamp_spec_def)
  have two: "Clamp (<) (- 5::int) 0 10 = 0"
    using conjunct1[OF int_case] by simp
  have three: "fClamp NaN (Fin 0) (Fin 1) = Clamp_spec fle flt NaN (Fin 0) (Fin 1)"
    using conjunct1[OF conjunct2[OF conjunct2[OF conjunct2[OF int_case]]]] by simp
  have four: "in_range (Fin 0) (Fin 1) (fClamp (Fin (3 / 2)) (Fin 0) (Fin 1))"
    using conjunct2[OF conjunct2[OF conjunct2[OF conjunct2[OF float_case]]]] by simp
  show ?thesis
    by (rule conjI[OF one conjI[OF two conjI[OF three four]]])
qed

subsection \<open>GetRangeAlpha\<close>

text \<open>No float lies strictly between 1e-8f and 1e-8.\<close>

lemma tolerance_gap:
  assumes "representable x" "11258999 / 2 ^ 50 < \<bar>x\<bar>"
  shows "1 / 10 ^ 8 < \<bar>x\<bar>"
proof (rule ccontr)
  assume "\<not> 1 / 10 ^ 8 < \<bar>x\<bar>"
  then have up: "\<bar>x\<bar> \<le> 1 / 10 ^ 8" by simp
  have e: "expo \<bar>x\<bar> = - 27"
    using assms(2) up by (intro expo_eq) (simp_all add: pow2_def)
  have "\<not> 2 ^ 128 - 2 ^ 103 \<le> \<bar>x\<bar>"
    using up by simp
  then have "round32 x = Fin (of_int (rne (x / pow2 (- 50))) * pow2 (- 50))"
    by (simp add: round32_def nearest32_def Let_def e)
  with assms(1) have "x = of_int (rne (x / pow2 (- 50))) * pow2 (- 50)"
    by (simp add: representable_def)
  then obtain n :: int where n: "x = of_int n / 2 ^ 50"
    by (auto simp: pow2_def)
  have "\<bar>x\<bar> = of_int \<bar>n\<bar> / 2 ^ 50"
    by (simp add: n)
  with assms(2) up have "(11258999 :: rat) < of_int \<bar>n\<bar>" "(of_int \<bar>n\<bar> :: rat) < 11259000"
    by (simp_all add: field_simps)
  then have "11258999 < \<bar>n\<bar>" "\<bar>n\<bar> < 11259000"
    by linarith+
  then show False by simp
qed

lemma tolerance_exact:
  assumes "representable x"
  shows "fle (fabs (Fin x)) SMALL_NUMBER \<longleftrightarrow> \<bar>x\<bar> \<le> 1 / 10 ^ 8"
proof
  assume "fle (fabs (Fin x)) SMALL_NUMBER"
  then have "\<bar>x\<bar> \<le> 11258999 / 2 ^ 50"
    by (simp add: SMALL_NUMBER_value)
  then show "\<bar>x\<bar> \<le> 1 / 10 ^ 8" by simp
next
  assume "\<bar>x\<bar> \<le> 1 / 10 ^ 8"
  with tolerance_gap[OF assms] have "\<bar>x\<bar> \<le> 11258999 / 2 ^ 50"
    by fastforce
  then show "fle (fabs (Fin x)) SMALL_NUMBER"
    by (simp add: SMALL_NUMBER_value)
qed

lemma guard_excludes_zero:
  assumes "\<not> fle (fabs d) SMALL_NUMBER"
  shows "d \<noteq> Fin 0"
  using assms by (auto simp: SMALL_NUMBER_value)

text \<open>
  Claim C1. For all \<^verbatim>\<open>float\<close>s, NaNs and infinities included: when the magnitude of the
  \<^verbatim>\<open>float\<close> difference \<open>maxValue - minValue\<close> is at most the tolerance, \<^verbatim>\<open>GetRangeAlpha\<close> returns
  the constant \<open>1.0\<close> if \<open>value \<ge> maxValue\<close> and \<open>0.0\<close> otherwise, computed without a division;
  otherwise it returns \<open>(value - minValue) / (maxValue - minValue)\<close>, and the divisor is not
  zero. The tolerance
  is the \<^verbatim>\<open>float\<close> \<^verbatim>\<open>1.e-8f\<close>, and a \<^verbatim>\<open>float\<close> is at most \<^verbatim>\<open>1.e-8f\<close> in magnitude exactly when
  it is at most \<open>10^-8\<close>. \<^verbatim>\<open>GetRangeAlpha(5, 5, 3) == 0.0\<close> and \<^verbatim>\<open>GetRangeAlpha(5, 5, 7) == 1.0\<close>.
\<close>

theorem GetRangeAlpha_guard:
  "GetRangeAlpha minValue maxValue v =
     (if fle (fabs (fsub maxValue minValue)) SMALL_NUMBER
      then (if fge v maxValue then Fin 1 else Fin 0)
      else fdiv (fsub v minValue) (fsub maxValue minValue))
   \<and> (\<not> fle (fabs (fsub maxValue minValue)) SMALL_NUMBER \<longrightarrow> fsub maxValue minValue \<noteq> Fin 0)
   \<and> (representable x \<longrightarrow> (fle (fabs (Fin x)) SMALL_NUMBER \<longleftrightarrow> \<bar>x\<bar> \<le> 1 / 10 ^ 8))
   \<and> GetRangeAlpha (Fin 5) (Fin 5) (Fin 3) = Fin 0
   \<and> GetRangeAlpha (Fin 5) (Fin 5) (Fin 7) = Fin 1"
proof -
  have branches: "GetRangeAlpha minValue maxValue v =
     (if fle (fabs (fsub maxValue minValue)) SMALL_NUMBER
      then (if fge v maxValue then Fin 1 else Fin 0)
      else fdiv (fsub v minValue) (fsub maxValue minValue))"
    by (simp add: GetRangeAlpha_def NearTolerance_def Let_def)
  have divisor: "\<not> fle (fabs (fsub maxValue minValue)) SMALL_NUMBER \<longrightarrow> fsub maxValue minValue \<noteq> Fin 0"
    using guard_excludes_zero by blast
  have tolerance: "representable x \<longrightarrow> (fle (fabs (Fin x)) SMALL_NUMBER \<longleftrightarrow> \<bar>x\<bar> \<le> 1 / 10 ^ 8)"
    using tolerance_exact by blast
  have below: "GetRangeAlpha (Fin 5) (Fin 5) (Fin 3) = Fin 0"
    by (simp add: GetRangeAlpha_def NearTolerance_def fsub_def fge_def round32_values SMALL_NUMBER_value)
  have above: "GetRangeAlpha (Fin 5) (Fin 5) (Fin 7) = Fin 1"
    by (simp add: GetRangeAlpha_def NearTolerance_def fsub_def fge_def round32_values SMALL_NUMBER_value)
  show ?thesis
    by (rule conjI[OF branches conjI[OF divisor conjI[OF tolerance conjI[OF below above]]]])
qed

theorem GetRangeAlpha_guard_witness:
  "fsub (Fin 10) (Fin 0) \<noteq> Fin 0 \<and> \<not> fle (fabs (Fin 10)) SMALL_NUMBER
   \<and> GetRangeAlpha (Fin 0) (Fin 10) (Fin 15) = Fin (3 / 2)"
proof -
  note all = GetRangeAlpha_guard[of "Fin 0" "Fin 10" "Fin 15" 10]
  have rep: "representable 10"
    by (simp add: representable_def round32_values)
  have "fle (fabs (Fin 10)) SMALL_NUMBER \<longleftrightarrow> \<bar>10 :: rat\<bar> \<le> 1 / 10 ^ 8"
    using conjunct1[OF conjunct2[OF conjunct2[OF all]]] rep by (rule mp)
  then have far: "\<not> fle (fabs (Fin 10)) SMALL_NUMBER"
    by simp
  have d: "fsub (Fin 10) (Fin 0) = Fin 10"
    by (simp add: fsub_def round32_values)
  have nonzero: "fsub (Fin 10) (Fin 0) \<noteq> Fin 0"
    using conjunct1[OF conjunct2[OF all]] far by (simp add: d)
  have "GetRangeAlpha (Fin 0) (Fin 10) (Fin 15) = fdiv (fsub (Fin 15) (Fin 0)) (fsub (Fin 10) (Fin 0))"
    using conjunct1[OF all] far by (simp add: d)
  then have val: "GetRangeAlpha (Fin 0) (Fin 10) (Fin 15) = Fin (3 / 2)"
    by (simp add: fsub_def round32_values)
  show ?thesis
    by (rule conjI[OF nonzero conjI[OF far val]])
qed

subsection \<open>InterpEaseInOut\<close>

lemma ease_in_half_boundary:
  assumes "pw (Fin 1) Exp = Fin 1"
  shows "ease_in_half pw (Fin (1 / 2)) Exp = Fin (1 / 2)"
  using assms
  by (simp add: ease_in_half_def InterpEaseIn_def Lerp_def fsub_def Let_def round32_values)

lemma ease_out_half_boundary:
  assumes "pw (Fin 1) Exp = Fin 1"
  shows "ease_out_half pw (Fin (1 / 2)) Exp = Fin (1 / 2)"
  using assms
  by (simp add: ease_out_half_def InterpEaseOut_def Lerp_def fsub_def Let_def round32_values)

text \<open>
  Claim C6. For every \<open>A\<close>, \<open>B\<close> and exponent, given only that \<^verbatim>\<open>pow(1, exp)\<close> is \<open>1\<close> (which the
  C standard fixes for every \<open>exp\<close>): at \<open>alpha = 0.5\<close> the rescaled and halved ease-in
  formula and the rescaled, halved and offset ease-out formula have the same value, \<open>0.5\<close>,
  and \<^verbatim>\<open>InterpEaseInOut(A, B, 0.5, exp)\<close> is the interpolation at that common value.
\<close>

theorem InterpEaseInOut_midpoint:
  assumes "pw (Fin 1) Exp = Fin 1"
  shows "ease_in_half pw (Fin (1 / 2)) Exp = ease_out_half pw (Fin (1 / 2)) Exp
    \<and> InterpEaseInOut lerpT pw A B (Fin (1 / 2)) Exp = lerpT A B (ease_in_half pw (Fin (1 / 2)) Exp)
    \<and> InterpEaseInOut lerpT pw A B (Fin (1 / 2)) Exp = lerpT A B (ease_out_half pw (Fin (1 / 2)) Exp)
    \<and> InterpEaseInOut lerpT pw A B (Fin (1 / 2)) Exp = lerpT A B (Fin (1 / 2))"
proof -
  note lo = ease_in_half_boundary[of pw Exp, OF assms] and hi = ease_out_half_boundary[of pw Exp, OF assms]
  have mid: "InterpEaseInOut lerpT pw A B (Fin (1 / 2)) Exp = lerpT A B (Fin (1 / 2))"
    by (simp add: InterpEaseInOut_def hi)
  show ?thesis
    by (simp only: lo hi mid simp_thms)
qed

theorem InterpEaseInOut_midpoint_witness:
  "InterpEaseInOut Lerp pow_fixed_cases (Fin 10) (Fin 100) (Fin (1 / 2)) (Fin 3) = Fin 55
   \<and> ease_in_half pow_fixed_cases (Fin (1 / 2)) (Fin 3) = ease_out_half pow_fixed_cases (Fin (1 / 2)) (Fin 3)"
proof -
  have pw: "pow_fixed_cases (Fin 1) (Fin 3) = Fin 1"
    by (simp add: pow_fixed_cases_def)
  note all = InterpEaseInOut_midpoint[of pow_fixed_cases "Fin 3" Lerp "Fin 10" "Fin 100", OF pw]
  have "InterpEaseInOut Lerp pow_fixed_cases (Fin 10) (Fin 100) (Fin (1 / 2)) (Fin 3)
        = Lerp (Fin 10) (Fin 100) (Fin (1 / 2))"
    by (rule conjunct2[OF conjunct2[OF conjunct2[OF all]]])
  also have "\<dots> = Fin 55"
    using round32_exact[of 90 0] round32_exact[of 45 0] round32_exact[of 55 0]
    by (simp add: Lerp_def fsub_def pow2_def)
  finally have val: "InterpEaseInOut Lerp pow_fixed_cases (Fin 10) (Fin 100) (Fin (1 / 2)) (Fin 3) = Fin 55" .
  show ?thesis
    by (rule conjI[OF val conjunct1[OF all]])
qed

subsection \<open>Lerp on an integral type\<close>

text \<open>
  Claim C7 says that \<^verbatim>\<open>Lerp\<close> widens before it subtracts. At \<^verbatim>\<open>T = uint32_t\<close> it does not:
  \<^verbatim>\<open>Lerp<uint32_t>(10, 5, 0.5f)\<close> takes \<open>5 - 10\<close> modulo \<open>2^32\<close>, which is \<open>4294967291\<close>, and
  returns \<open>2^31\<close>, where the widened computation returns \<open>7\<close>.
\<close>

theorem Lerp_uint32_wraps_counterexample:
  "Lerp_uint32 10 5 (Fin (1 / 2)) = Some 2147483648
   \<and> Lerp_widened_uint32 10 5 (Fin (1 / 2)) = Some 7
   \<and> (5 :: uint32) - 10 = 4294967291"
  by (simp add: Lerp_uint32_def Lerp_widened_uint32_def fsub_def float_of_uint32_def
      round32_values round32_large round32_inexact trunc_def floor_rat_numeral)

lemma float_of_uint32_small:
  assumes "w < 2 ^ 24"
  shows "float_of_uint32 w = Fin (of_int (uint w))"
proof -
  have "uint w < 2 ^ 24"
    using assms by (simp add: word_less_def)
  then have "\<bar>uint w\<bar> < 2 ^ 24" by simp
  from round32_exact[OF this, of 0] show ?thesis
    by (simp add: float_of_uint32_def pow2_def)
qed

lemma Lerp_uint32_no_wrap:
  assumes "A \<le> B" "B < 2 ^ 24"
  shows "Lerp_uint32 A B alpha = Lerp_widened_uint32 A B alpha"
proof -
  have A: "A < 2 ^ 24" using assms by simp
  have BA: "B - A < 2 ^ 24"
    using assms by (meson word_sub_le order_le_less_trans)
  have u: "uint (B - A) = uint B - uint A"
    using assms(1) by (simp add: uint_minus_simple_alt)
  have "fsub (float_of_uint32 B) (float_of_uint32 A)
        = fsub (Fin (of_int (uint B))) (Fin (of_int (uint A)))"
    by (simp only: float_of_uint32_small[OF assms(2)] float_of_uint32_small[OF A])
  also have "\<dots> = round32 (of_int (uint B) - of_int (uint A))"
    by (simp add: fsub_def)
  also have "\<dots> = round32 (of_int (uint (B - A)))"
    by (simp only: u of_int_diff)
  also have "\<dots> = float_of_uint32 (B - A)"
    by (simp only: float_of_uint32_def)
  finally show ?thesis
    by (simp only: Lerp_uint32_def Lerp_widened_uint32_def)
qed

text \<open>
  Claim C7, amended. For \<^verbatim>\<open>T = uint32_t\<close>, \<^verbatim>\<open>Lerp(A, B, alpha)\<close> computes \<open>B - A\<close> in \<open>T\<close>, with
  wrap-around modulo \<open>2^32\<close>, converts that difference and \<open>A\<close> to \<^verbatim>\<open>float\<close>, multiplies and
  adds there, and casts the sum back to \<open>T\<close>. It agrees with the widened computation when
  \<open>A \<le> B < 2^24\<close>, where nothing wraps and every operand is an exact \<^verbatim>\<open>float\<close>.
\<close>

theorem Lerp_uint32_wraps:
  "Lerp_uint32 A B alpha
     = uint32_of_float (fadd (float_of_uint32 A) (fmul alpha (float_of_uint32 (B - A))))
   \<and> uint (B - A) = (uint B - uint A) mod 2 ^ 32
   \<and> (A \<le> B \<and> B < 2 ^ 24 \<longrightarrow> Lerp_uint32 A B alpha = Lerp_widened_uint32 A B alpha)"
proof -
  have code: "Lerp_uint32 A B alpha
     = uint32_of_float (fadd (float_of_uint32 A) (fmul alpha (float_of_uint32 (B - A))))"
    by (rule Lerp_uint32_def)
  have wrap: "uint (B - A) = (uint B - uint A) mod 2 ^ 32"
    by (simp add: uint_word_ariths)
  have agree: "A \<le> B \<and> B < 2 ^ 24 \<longrightarrow> Lerp_uint32 A B alpha = Lerp_widened_uint32 A B alpha"
    using Lerp_uint32_no_wrap by blast
  show ?thesis
    by (rule conjI[OF code conjI[OF wrap agree]])
qed

theorem Lerp_uint32_wraps_witness:
  "Lerp_uint32 5 10 (Fin (1 / 2)) = Lerp_widened_uint32 5 10 (Fin (1 / 2))
   \<and> Lerp_widened_uint32 5 10 (Fin (1 / 2)) = Some 7"
proof -
  have h: "(5 :: uint32) \<le> 10 \<and> (10 :: uint32) < 2 ^ 24"
    by simp
  have same: "Lerp_uint32 5 10 (Fin (1 / 2)) = Lerp_widened_uint32 5 10 (Fin (1 / 2))"
    using conjunct2[OF conjunct2[OF Lerp_uint32_wraps[of 5 10 "Fin (1 / 2)"]]] h by (rule mp)
  have val: "Lerp_widened_uint32 5 10 (Fin (1 / 2)) = Some 7"
    using round32_exact[of 5 "- 1"]
    by (simp add: Lerp_widened_uint32_def fsub_def float_of_uint32_def
      round32_values trunc_def floor_rat_numeral pow2_def)
  show ?thesis
    by (rule conjI[OF same val])
qed

subsection \<open>GetMappedValueClamped\<close>

lemmas range_mapper_defs = GetMappedValueClamped_def fLerp_def Lerp_def fClamp_def Clamp_def
  GetRangeAlpha_def NearTolerance_def fsub_def fge_def Let_def

text \<open>
  Claim C3 promises a result within \<open>[outMin, outMax]\<close> whenever \<open>outMin \<le> outMax\<close>. In
  \<^verbatim>\<open>float\<close> arithmetic that fails in two ways. With \<open>outMin = -2^127\<close> and \<open>outMax = 2^127\<close> the
  difference \<open>outMax - outMin\<close> overflows to \<open>+\<infinity>\<close>, and at \<open>alpha = 0\<close> the product
  \<open>0 * \<infinity>\<close> is a NaN, which is the result. With \<open>outMin = -1\<close>, \<open>outMax = 3 * 2^-25\<close> and
  \<open>alpha = 1\<close> the difference rounds up to \<open>1 + 2^-23\<close>, and the result \<open>2^-23 = 4 * 2^-25\<close>
  exceeds \<open>outMax\<close>. In both cases \<open>outMin\<close> and \<open>outMax\<close> are \<^verbatim>\<open>float\<close>s and their difference is
  not.
\<close>

theorem GetMappedValueClamped_counterexample:
  "representable (2 ^ 127) \<and> representable (- (2 ^ 127))
   \<and> fle (Fin (- (2 ^ 127))) (Fin (2 ^ 127))
   \<and> GetMappedValueClamped (Fin 0) (Fin 10) (Fin (- (2 ^ 127))) (Fin (2 ^ 127)) (Fin 0) = NaN
   \<and> \<not> in_range (Fin (- (2 ^ 127))) (Fin (2 ^ 127))
         (GetMappedValueClamped (Fin 0) (Fin 10) (Fin (- (2 ^ 127))) (Fin (2 ^ 127)) (Fin 0))
   \<and> representable (- 1) \<and> representable (3 / 2 ^ 25)
   \<and> fle (Fin (- 1)) (Fin (3 / 2 ^ 25))
   \<and> GetMappedValueClamped (Fin 0) (Fin 10) (Fin (- 1)) (Fin (3 / 2 ^ 25)) (Fin 15)
       = Fin (4 / 2 ^ 25)
   \<and> \<not> in_range (Fin (- 1)) (Fin (3 / 2 ^ 25))
         (GetMappedValueClamped (Fin 0) (Fin 10) (Fin (- 1)) (Fin (3 / 2 ^ 25)) (Fin 15))
   \<and> \<not> representable (2 ^ 127 - (- (2 ^ 127)))
   \<and> \<not> representable (3 / 2 ^ 25 - (- 1))"
proof -
  have inexact: "\<not> representable (2 ^ 127 - (- (2 ^ 127)))"
    "\<not> representable (3 / 2 ^ 25 - (- 1))"
    by (simp_all add: representable_def round32_overflow round32_inexact)
  have big: "representable (2 ^ 127)" "representable (- (2 ^ 127))"
    using round32_exact[of "2 ^ 23" 104] round32_exact[of "- (2 ^ 23)" 104]
    by (simp_all add: representable_def pow2_def)
  have small: "representable (- 1)" "representable (3 / 2 ^ 25)"
    using round32_exact[of "- 1" 0] round32_exact[of 3 "- 25"]
    by (simp_all add: representable_def pow2_def)
  have overflow:
    "GetMappedValueClamped (Fin 0) (Fin 10) (Fin (- (2 ^ 127))) (Fin (2 ^ 127)) (Fin 0) = NaN"
    by (simp add: range_mapper_defs round32_values SMALL_NUMBER_value round32_overflow)
  have rounding:
    "GetMappedValueClamped (Fin 0) (Fin 10) (Fin (- 1)) (Fin (3 / 2 ^ 25)) (Fin 15)
       = Fin (4 / 2 ^ 25)"
    by (simp add: range_mapper_defs round32_values SMALL_NUMBER_value round32_large
        round32_inexact)
  show ?thesis
    by (simp only: overflow rounding big small inexact simp_thms) (simp add: in_range_def)
qed

lemma representable_finite: "representable q \<Longrightarrow> \<bar>q\<bar> < 2 ^ 128 - 2 ^ 103"
  by (auto simp: representable_def round32_def split: if_splits)

lemma round32_nonneg: "0 \<le> x \<Longrightarrow> fle (Fin 0) (round32 x)"
  using round32_mono[of 0 x] by (simp add: round32_values)

lemma fadd_mono:
  assumes "fle x y" "fle (Fin 0) x"
  shows "fle (fadd (Fin a) x) (fadd (Fin a) y)"
proof (cases x)
  case (Fin xv)
  show ?thesis
  proof (cases y)
    case (Fin yv)
    with \<open>x = Fin xv\<close> assms(1) show ?thesis
      by (simp add: round32_mono)
  next
    case PInf
    with \<open>x = Fin xv\<close> round32_not_NaN[of "a + xv"] show ?thesis
      by (cases "round32 (a + xv)") simp_all
  qed (use assms Fin in simp_all)
next
  case PInf
  with assms(1) show ?thesis by (cases y) simp_all
qed (use assms in simp_all)

lemma fadd_lower:
  assumes "representable a" "fle (Fin 0) p"
  shows "fle (Fin a) (fadd (Fin a) p)"
proof (cases p)
  case (Fin pv)
  with assms(2) have "a \<le> a + pv" by simp
  from round32_mono[OF this] show ?thesis
    using assms(1) Fin by (simp add: representable_def)
qed (use assms in simp_all)

lemma Lerp_between:
  assumes "representable a" "a \<le> b" "\<bar>b - a\<bar> < 2 ^ 128 - 2 ^ 103" "0 \<le> t" "t \<le> 1"
  shows "in_range (Fin a) (Lerp (Fin a) (Fin b) (Fin 1)) (Lerp (Fin a) (Fin b) (Fin t))"
proof -
  define dv where "dv = nearest32 (b - a)"
  have d: "fsub (Fin b) (Fin a) = Fin dv"
    using assms(3) by (simp add: fsub_def round32_def dv_def)
  have "0 \<le> dv"
    unfolding dv_def using assms(2) by (intro nearest32_nonneg) simp
  then have "0 \<le> t * dv" "t * dv \<le> 1 * dv"
    using assms(4,5) by (simp, intro mult_right_mono)
  then have p: "fle (Fin 0) (fmul (Fin t) (Fin dv))"
    "fle (fmul (Fin t) (Fin dv)) (fmul (Fin 1) (Fin dv))"
    using round32_nonneg round32_mono by simp_all
  show ?thesis
    unfolding in_range_def Lerp_def d
    using fadd_lower[OF assms(1) p(1)] fadd_mono[OF p(2) p(1)] by simp
qed

lemma Lerp_at_one:
  assumes "representable b" "representable (b - a)"
  shows "Lerp (Fin a) (Fin b) (Fin 1) = Fin b"
  using assms by (simp add: Lerp_def fsub_def representable_def)

lemma clamped_alpha_unit: "\<exists>t. fClamp x (Fin 0) (Fin 1) = Fin t \<and> 0 \<le> t \<and> t \<le> 1"
  by (cases x) (auto simp: fClamp_def Clamp_def)

text \<open>
  Claim C3, amended. \<^verbatim>\<open>GetMappedValueClamped\<close> clamps the alpha computed by
  \<^verbatim>\<open>GetRangeAlpha\<close> to \<open>[0, 1]\<close> before interpolating; the clamped alpha is a finite number in
  \<open>[0, 1]\<close> whatever \<^verbatim>\<open>GetRangeAlpha\<close> returned. For finite \<^verbatim>\<open>float\<close>s \<open>outMin \<le> outMax\<close> whose
  difference does not overflow, the result lies between \<open>outMin\<close> and the value of the
  interpolation at \<open>alpha = 1\<close>; when the difference \<open>outMax - outMin\<close> is exact in \<^verbatim>\<open>float\<close>
  arithmetic that value is \<open>outMax\<close>, and the result lies within \<open>[outMin, outMax]\<close>. In
  particular \<^verbatim>\<open>GetMappedValueClamped(0, 10, 0, 100, -5) == 0\<close> and
  \<^verbatim>\<open>GetMappedValueClamped(0, 10, 0, 100, 15) == 100\<close>.
\<close>

theorem GetMappedValueClamped_range:
  assumes "outMin = Fin a" "outMax = Fin b" "representable a" "representable b" "a \<le> b"
  shows "GetMappedValueClamped inMin inMax outMin outMax v
           = fLerp outMin outMax (fClamp (GetRangeAlpha inMin inMax v) (Fin 0) (Fin 1))
       \<and> (\<exists>t. fClamp (GetRangeAlpha inMin inMax v) (Fin 0) (Fin 1) = Fin t \<and> 0 \<le> t \<and> t \<le> 1)
       \<and> (\<bar>b - a\<bar> < 2 ^ 128 - 2 ^ 103 \<longrightarrow>
            in_range outMin (fLerp outMin outMax (Fin 1))
              (GetMappedValueClamped inMin inMax outMin outMax v))
       \<and> (representable (b - a) \<longrightarrow>
            fLerp outMin outMax (Fin 1) = outMax
            \<and> in_range outMin outMax (GetMappedValueClamped inMin inMax outMin outMax v))
       \<and> GetMappedValueClamped (Fin 0) (Fin 10) (Fin 0) (Fin 100) (Fin (- 5)) = Fin 0
       \<and> GetMappedValueClamped (Fin 0) (Fin 10) (Fin 0) (Fin 100) (Fin 15) = Fin 100"
proof -
  have code: "GetMappedValueClamped inMin inMax outMin outMax v
           = fLerp outMin outMax (fClamp (GetRangeAlpha inMin inMax v) (Fin 0) (Fin 1))"
    by (simp add: GetMappedValueClamped_def)
  obtain t where t: "fClamp (GetRangeAlpha inMin inMax v) (Fin 0) (Fin 1) = Fin t"
    "0 \<le> t" "t \<le> 1"
    using clamped_alpha_unit by blast
  then have unit: "\<exists>t. fClamp (GetRangeAlpha inMin inMax v) (Fin 0) (Fin 1) = Fin t \<and> 0 \<le> t \<and> t \<le> 1"
    by blast
  have "fLerp outMin outMax (Fin t) = Lerp (Fin a) (Fin b) (Fin t)"
    by (simp add: assms(1,2) fLerp_def)
  then have val: "GetMappedValueClamped inMin inMax outMin outMax v = Lerp (Fin a) (Fin b) (Fin t)"
    by (simp only: code t(1))
  have one: "fLerp outMin outMax (Fin 1) = Lerp (Fin a) (Fin b) (Fin 1)"
    by (simp add: assms(1,2) fLerp_def)
  have between: "\<bar>b - a\<bar> < 2 ^ 128 - 2 ^ 103 \<longrightarrow>
            in_range outMin (fLerp outMin outMax (Fin 1))
              (GetMappedValueClamped inMin inMax outMin outMax v)"
  proof
    assume "\<bar>b - a\<bar> < 2 ^ 128 - 2 ^ 103"
    from Lerp_between[OF assms(3,5) this t(2,3)]
    have "in_range outMin (Lerp (Fin a) (Fin b) (Fin 1)) (Lerp (Fin a) (Fin b) (Fin t))"
      by (simp only: assms(1))
    then have "in_range outMin (fLerp outMin outMax (Fin 1)) (Lerp (Fin a) (Fin b) (Fin t))"
      by (simp only: one)
    then show "in_range outMin (fLerp outMin outMax (Fin 1))
              (GetMappedValueClamped inMin inMax outMin outMax v)"
      by (simp only: val)
  qed
  have exact: "representable (b - a) \<longrightarrow>
            fLerp outMin outMax (Fin 1) = outMax
            \<and> in_range outMin outMax (GetMappedValueClamped inMin inMax outMin outMax v)"
  proof
    assume r: "representable (b - a)"
    have "Lerp (Fin a) (Fin b) (Fin 1) = outMax"
      using Lerp_at_one[OF assms(4) r] by (simp only: assms(2))
    then have top: "fLerp outMin outMax (Fin 1) = outMax"
      by (simp only: one)
    from between representable_finite[OF r]
    have "in_range outMin (fLerp outMin outMax (Fin 1))
              (GetMappedValueClamped inMin inMax outMin outMax v)"
      by (rule mp)
    then have "in_range outMin outMax (GetMappedValueClamped inMin inMax outMin outMax v)"
      by (simp only: top)
    with top show "fLerp outMin outMax (Fin 1) = outMax
            \<and> in_range outMin outMax (GetMappedValueClamped inMin inMax outMin outMax v)"
      by (rule conjI)
  qed
  have low: "GetMappedValueClamped (Fin 0) (Fin 10) (Fin 0) (Fin 100) (Fin (- 5)) = Fin 0"
    by (simp add: range_mapper_defs round32_values SMALL_NUMBER_value)
  have high: "GetMappedValueClamped (Fin 0) (Fin 10) (Fin 0) (Fin 100) (Fin 15) = Fin 100"
    by (simp add: range_mapper_defs round32_values SMALL_NUMBER_value)
  show ?thesis
    by (rule conjI[OF code conjI[OF unit conjI[OF between conjI[OF exact conjI[OF low high]]]]])
qed

theorem GetMappedValueClamped_range_witness:
  "in_range (Fin 0) (Fin 100) (GetMappedValueClamped (Fin 0) (Fin 10) (Fin 0) (Fin 100) (Fin 15))
   \<and> in_range (Fin 0) (Fin 100)
        (GetMappedValueClamped (Fin 0) (Fin 10) (Fin 0) (Fin 100) (Fin (- 5)))"
proof -
  have rep: "representable 0" "representable 100" "representable (100 - 0)"
    by (simp_all add: representable_def round32_values)
  have le: "(0 :: rat) \<le> 100" by simp
  note all = GetMappedValueClamped_range[OF refl refl rep(1,2) le]
  have above: "in_range (Fin 0) (Fin 100)
      (GetMappedValueClamped (Fin 0) (Fin 10) (Fin 0) (Fin 100) (Fin 15))"
    using conjunct1[OF conjunct2[OF conjunct2[OF conjunct2[OF all[of "Fin 0" "Fin 10" "Fin 15"]]]]]
      rep(3) by blast
  have below: "in_range (Fin 0) (Fin 100)
      (GetMappedValueClamped (Fin 0) (Fin 10) (Fin 0) (Fin 100) (Fin (- 5)))"
    using conjunct1[OF conjunct2[OF conjunct2[OF conjunct2[OF all[of "Fin 0" "Fin 10" "Fin (- 5)"]]]]]
      rep(3) by blast
  show ?thesis
    by (rule conjI[OF above below])
qed

end
